theory Spec2Isabelle
  imports Main
begin

section \<open>The chunked parallel downloader of s3/download.go\<close>

text \<open>
  A shallow embedding of \<^verbatim>\<open>s3/download.go\<close>: the partition loop of \<^verbatim>\<open>Open\<close>, the
  per-chunk \<^verbatim>\<open>Download\<close> and \<^verbatim>\<open>Read\<close>, the downloader's \<^verbatim>\<open>Read\<close> and \<^verbatim>\<open>WriteTo\<close>, and the
  goroutines (the feeder of \<^verbatim>\<open>d.chunks\<close>, the workers \<^verbatim>\<open>d.download\<close>, the consumer) as an
  executable interleaving semantics: one event is one atomic action of one goroutine.

  Bytes are \<^typ>\<open>char\<close>s, byte slices are \<^typ>\<open>string\<close>s. Go's \<^verbatim>\<open>int64\<close> is \<^typ>\<open>int\<close> with the
  wrap-around written out (\<open>wrap64\<close>). The constants \<^verbatim>\<open>minPartSize\<close> and \<^verbatim>\<open>concurrency\<close> are
  declared in a file of the package that is not at hand: they are parameters.
\<close>

subsection \<open>Errors, requests, responses\<close>

datatype error =
    EOF                       \<comment> \<open>\<^verbatim>\<open>io.EOF\<close>\<close>
  | UrlError string           \<comment> \<open>an error of \<^verbatim>\<open>url.Parse\<close>\<close>
  | RequestError string       \<comment> \<open>an error of \<^verbatim>\<open>http.NewRequest\<close>\<close>
  | TransportError string     \<comment> \<open>the error \<^verbatim>\<open>retry\<close> gives up with\<close>
  | ResponseError int string  \<comment> \<open>\<^verbatim>\<open>newResponseError\<close>: status code and body\<close>
  | FormatError string        \<comment> \<open>\<^verbatim>\<open>fmt.Errorf("s3: cannot parse content-length")\<close>\<close>
  | BodyError string          \<comment> \<open>an error of reading a response body\<close>
  | WriteError string         \<comment> \<open>an error of the sink of \<^verbatim>\<open>WriteTo\<close>\<close>

text \<open>What a call can do besides returning: block on a channel, or panic.\<close>

datatype 'a outcome = Blocked | Panic | Done 'a

record request =
  req_method :: string
  req_url :: string
  req_range :: "(int \<times> int) option"  \<comment> \<open>the header \<^verbatim>\<open>Range: bytes=first-last\<close>, when set\<close>

record response =
  StatusCode :: int
  Header :: "(string \<times> string list) list"
  Body :: "string \<times> error option"  \<comment> \<open>the bytes the body yields, then end of data or an error\<close>

text \<open>
  The collaborators of the downloader, as functions of the request: \<open>url_Parse\<close> is
  \<^verbatim>\<open>url.Parse(uri)\<close> followed by \<^verbatim>\<open>u.Scheme = "https"\<close> and \<^verbatim>\<open>u.String()\<close>; \<open>NewRequest\<close> is
  \<^verbatim>\<open>http.NewRequest(method, url, nil)\<close>; \<open>retry\<close> is \<^verbatim>\<open>retry(retryNoBody(c, req), retries)\<close>,
  the response or the error the bounded retries end with.
\<close>

record net =
  url_Parse :: "string \<Rightarrow> error + string"
  NewRequest :: "string \<Rightarrow> string \<Rightarrow> error option"
  retry :: "request \<Rightarrow> error + response"

text \<open>
  Modelled from the spec: \<^verbatim>\<open>newResponseError\<close> is not in the source at hand; the spec has
  it as "an error type carrying the HTTP status code and response body".
\<close>

definition newResponseError :: "response \<Rightarrow> error" where
  "newResponseError resp = ResponseError (StatusCode resp) (fst (Body resp))"

text \<open>\<^verbatim>\<open>http.Header.Get\<close>: the first value of the key, or the empty string.\<close>

definition Header_Get :: "(string \<times> string list) list \<Rightarrow> string \<Rightarrow> string" where
  "Header_Get h k = (case map_of h k of None \<Rightarrow> [] | Some [] \<Rightarrow> [] | Some (v # _) \<Rightarrow> v)"

subsection \<open>strconv.ParseInt(s, 10, 64)\<close>

datatype num_error = ErrSyntax | ErrRange

definition digit_of :: "char \<Rightarrow> nat option" where
  "digit_of c =
     (let v = (of_char c :: nat) in if 48 \<le> v \<and> v \<le> 57 then Some (v - 48) else None)"

fun digits_val :: "nat \<Rightarrow> string \<Rightarrow> nat option" where
  "digits_val n [] = Some n"
| "digits_val n (c # cs) =
     (case digit_of c of None \<Rightarrow> None | Some d \<Rightarrow> digits_val (10 * n + d) cs)"

text \<open>\<^verbatim>\<open>ParseUint(s, 10, 64)\<close>: a digit string, below \<open>2 ^ 64\<close>.\<close>

definition ParseUint :: "string \<Rightarrow> num_error + nat" where
  "ParseUint s =
     (if s = [] then Inl ErrSyntax
      else case digits_val 0 s of
          None \<Rightarrow> Inl ErrSyntax
        | Some n \<Rightarrow> if n < 2 ^ 64 then Inr n else Inl ErrRange)"

definition ParseInt :: "string \<Rightarrow> num_error + int" where
  "ParseInt s =
     (if s = [] then Inl ErrSyntax
      else
        let neg = (hd s = CHR ''-'');
            s1 = (if hd s = CHR ''+'' \<or> hd s = CHR ''-'' then tl s else s)
        in case ParseUint s1 of
            Inl e \<Rightarrow> Inl e
          | Inr un \<Rightarrow>
              if \<not> neg \<and> un \<ge> 2 ^ 63 then Inl ErrRange
              else if neg \<and> un > 2 ^ 63 then Inl ErrRange
              else Inr (if neg then - int un else int un))"

subsection \<open>Chunks\<close>

text \<open>
  \<^verbatim>\<open>type chunk struct\<close>. \<open>buf\<close> is the \<^verbatim>\<open>*bytes.Buffer\<close>: \<open>None\<close> is the nil pointer, \<open>Some b\<close>
  a buffer with the unread bytes \<open>b\<close>. \<open>done_c\<close> is the channel \<^verbatim>\<open>done\<close>, which is only ever
  closed: \<open>True\<close> once closed. \<open>header\<close> is the one header of the chunk, \<^verbatim>\<open>Range\<close>, as the
  two numbers that \<^verbatim>\<open>fmt.Sprintf("bytes=%d-%d", i, i+size-1)\<close> prints. The channel \<^verbatim>\<open>readAhead\<close>
  is the downloader's; the \<^verbatim>\<open>client\<close> is part of \<^typ>\<open>net\<close>.
\<close>

record chunk =
  buf :: "string option"
  done_c :: bool
  header :: "int \<times> int"
  url :: string
  err :: "error option"

text \<open>A buffered channel of \<^verbatim>\<open>bool\<close>: how many values it holds, and its capacity.\<close>

record chan =
  held :: nat
  cap :: nat

definition chan_send :: "chan \<Rightarrow> chan option" where
  "chan_send ch = (if held ch < cap ch then Some (ch\<lparr>held := held ch + 1\<rparr>) else None)"

definition chan_recv :: "chan \<Rightarrow> chan option" where
  "chan_recv ch = (if 0 < held ch then Some (ch\<lparr>held := held ch - 1\<rparr>) else None)"

text \<open>
  \<^verbatim>\<open>bytes.Buffer.Read(p)\<close> with \<open>n = len(p)\<close>: the bytes copied, the error, the buffer left.
  An empty buffer gives \<^verbatim>\<open>io.EOF\<close>, unless \<open>len(p) = 0\<close>.
\<close>

definition Buffer_Read :: "string \<Rightarrow> nat \<Rightarrow> string \<times> error option \<times> string" where
  "Buffer_Read b n =
     (if b = [] then (if n = 0 then ([], None, b) else ([], Some EOF, b))
      else (take n b, None, drop n b))"

text \<open>
  \<^verbatim>\<open>func (c *chunk) Read(p []byte) (int, error)\<close>, with \<open>n = len(p)\<close> and the channel
  \<^verbatim>\<open>c.readAhead\<close>. The result has the bytes read, the error, the chunk and the channel after
  the call. The call blocks while \<^verbatim>\<open>done\<close> is open and while \<^verbatim>\<open>readAhead\<close> is full; calling
  \<^verbatim>\<open>c.buf.Read\<close> on the nil buffer is a nil pointer dereference.
\<close>

definition chunk_Read ::
  "chunk \<Rightarrow> chan \<Rightarrow> nat \<Rightarrow> (string \<times> error option \<times> chunk \<times> chan) outcome" where
  "chunk_Read c ra n =
     (if \<not> done_c c then Blocked
      else if chunk.err c \<noteq> None then Done ([], chunk.err c, c, ra)
      else case buf c of
          None \<Rightarrow> Panic
        | Some b \<Rightarrow>
            (case Buffer_Read b n of (p, e, b') \<Rightarrow>
               if e \<noteq> None then
                 (if e = Some EOF then
                    (case chan_send ra of
                       None \<Rightarrow> Blocked
                     | Some ra' \<Rightarrow> Done (p, e, c\<lparr>buf := None\<rparr>, ra'))
                  else Done (p, e, c\<lparr>buf := Some b'\<rparr>, ra))
               else Done (p, None, c\<lparr>buf := Some b'\<rparr>, ra)))"

text \<open>
  The deferred \<^verbatim>\<open>close(c.done)\<close> with which every return of \<^verbatim>\<open>Download\<close> ends: closing
  a closed channel panics.
\<close>

definition close_done ::
  "chunk \<Rightarrow> error option \<Rightarrow> request list \<Rightarrow> (chunk \<times> error option \<times> request list) outcome" where
  "close_done c e rq = (if done_c c then Panic else Done (c\<lparr>done_c := True\<rparr>, e, rq))"

text \<open>
  The request of \<^verbatim>\<open>Download\<close>: \<^verbatim>\<open>http.NewRequest("GET", c.url, nil)\<close> with the headers of
  the chunk added, that is its \<^verbatim>\<open>Range\<close>.
\<close>

definition get_request :: "chunk \<Rightarrow> request" where
  "get_request c = \<lparr>req_method = ''GET'', req_url = url c, req_range = Some (header c)\<rparr>"

text \<open>
  \<^verbatim>\<open>func (c *chunk) Download() error\<close>: the chunk after the call, the error returned and
  the requests handed to \<^verbatim>\<open>retry\<close>. \<^verbatim>\<open>c.buf.ReadFrom(resp.Body)\<close> appends what the body yields
  before its error, if any.
\<close>

definition Download :: "net \<Rightarrow> chunk \<Rightarrow> (chunk \<times> error option \<times> request list) outcome" where
  "Download w c =
     (case NewRequest w ''GET'' (url c) of
        Some e \<Rightarrow> close_done c (Some e) []
      | None \<Rightarrow>
          let req = get_request c in
          (case retry w req of
             Inl e \<Rightarrow> close_done c (Some e) [req]
           | Inr resp \<Rightarrow>
               if StatusCode resp \<noteq> 206 then close_done c (Some (newResponseError resp)) [req]
               else
                 (case buf c of
                    None \<Rightarrow> Panic
                  | Some b \<Rightarrow>
                      (case snd (Body resp) of
                         Some e \<Rightarrow>
                           close_done (c\<lparr>buf := Some (b @ fst (Body resp))\<rparr>) (Some e) [req]
                       | None \<Rightarrow>
                           close_done (c\<lparr>buf := Some (b @ fst (Body resp))\<rparr>) None [req]))))"

subsection \<open>Open\<close>

definition wrap64 :: "int \<Rightarrow> int" where
  "wrap64 x = (x + 2 ^ 63) mod 2 ^ 64 - 2 ^ 63"

definition min64 :: "int \<Rightarrow> int \<Rightarrow> int" where
  "min64 a b = (if a < b then a else b)"

text \<open>
  The loop \<^verbatim>\<open>for i := int64(0); i < s; { size := min64(minPartSize, s); ...; i += size }\<close>
  of \<^verbatim>\<open>Open\<close>, appending one chunk per round. It need not end (\<open>minPartSize \<le> 0\<close>), so it
  is a partial function: \<open>None\<close> is a loop that never ends.
\<close>

partial_function (option) create_chunks ::
  "int \<Rightarrow> string \<Rightarrow> int \<Rightarrow> int \<Rightarrow> chunk list \<Rightarrow> chunk list option" where
  "create_chunks minPartSize u s i chunks =
     (if i < s then
        (let sz = min64 minPartSize s;
             c = \<lparr>buf = Some [], done_c = False, header = (i, wrap64 (i + sz - 1)),
                  url = u, err = None\<rparr>
         in create_chunks minPartSize u s (wrap64 (i + sz)) (chunks @ [c]))
      else Some chunks)"

text \<open>The states of a worker goroutine \<^verbatim>\<open>d.download()\<close> and of the consumer.\<close>

datatype worker =
    AtRange                      \<comment> \<open>at \<^verbatim>\<open>for c := range d.chunks\<close>, waiting for a chunk\<close>
  | InDownload nat               \<comment> \<open>in \<^verbatim>\<open>c.Download()\<close> of the chunk with this index\<close>
  | Returned "error option"      \<comment> \<open>\<^verbatim>\<open>c.Download()\<close> has returned this, before \<^verbatim>\<open>d.err = err\<close>\<close>
  | AtReadAhead                  \<comment> \<open>at \<^verbatim>\<open><-d.readAhead\<close>\<close>
  | Exited                       \<comment> \<open>the range loop has ended\<close>

datatype consumer =
    Ready                        \<comment> \<open>not in a call\<close>
  | InRead nat                   \<comment> \<open>in \<^verbatim>\<open>d.r.Read(p)\<close>, at the head of its loop, \<open>len(p)\<close>\<close>

text \<open>
  \<^verbatim>\<open>type downloader struct\<close> with the objects and goroutines around it. \<open>chunks\<close> is the
  slice \<^verbatim>\<open>chunks\<close> of \<^verbatim>\<open>Open\<close>: the chunk objects, named by their index everywhere else.
  \<open>r_readers\<close> is \<^verbatim>\<open>d.r\<close>, the \<^verbatim>\<open>io.MultiReader\<close>: the readers it has not dropped yet.
  \<open>chunks_ch\<close> is the unbuffered channel \<^verbatim>\<open>d.chunks\<close> with its feeder goroutine: the chunks
  the feeder has still to send; \<open>chunks_closed\<close> is whether the channel is closed.
  \<open>returns\<close> logs what the calls of \<^verbatim>\<open>d.Read\<close> returned, \<open>requests\<close> the requests the
  workers issued; \<open>panicked\<close> is set by a panic, which ends the program.
\<close>

record downloader =
  chunks :: "chunk list"
  r_readers :: "nat list"
  chunks_ch :: "nat list"
  chunks_closed :: bool
  readAhead :: chan
  once :: bool
  err :: "error option"
  workers :: "worker list"
  consumer :: consumer
  returns :: "(string \<times> error option) list"
  requests :: "request list"
  panicked :: bool

text \<open>
  The downloader \<^verbatim>\<open>Open\<close> returns for the chunks it created: \<^verbatim>\<open>d.chunks\<close> open with the
  feeder about to send every chunk in order, \<^verbatim>\<open>d.readAhead\<close> empty with capacity
  \<^verbatim>\<open>concurrency\<close>, the multi-reader over every chunk, no worker.
\<close>

definition new_downloader :: "nat \<Rightarrow> chunk list \<Rightarrow> downloader" where
  "new_downloader concurrency cs =
     \<lparr>chunks = cs, r_readers = [0..<length cs], chunks_ch = [0..<length cs],
      chunks_closed = False, readAhead = \<lparr>held = 0, cap = concurrency\<rparr>,
      once = False, err = None, workers = [], consumer = Ready,
      returns = [], requests = [], panicked = False\<rparr>"

text \<open>The probe of \<^verbatim>\<open>Open\<close>: a \<^verbatim>\<open>HEAD\<close> request without headers.\<close>

definition head_request :: "string \<Rightarrow> request" where
  "head_request u = \<lparr>req_method = ''HEAD'', req_url = u, req_range = None\<rparr>"

text \<open>
  \<^verbatim>\<open>func Open(uri string, c *http.Client) (io.ReadCloser, http.Header, error)\<close>: the
  requests issued, and the error or the downloader with the headers of the probe. \<open>None\<close>
  is a call that never returns.
\<close>

definition Open ::
  "net \<Rightarrow> int \<Rightarrow> nat \<Rightarrow> string \<Rightarrow>
   (request list \<times> (error + downloader \<times> (string \<times> string list) list)) option" where
  "Open w minPartSize concurrency uri =
     (case url_Parse w uri of
        Inl e \<Rightarrow> Some ([], Inl e)
      | Inr u \<Rightarrow>
          (case NewRequest w ''HEAD'' u of
             Some e \<Rightarrow> Some ([], Inl e)
           | None \<Rightarrow>
               let req = head_request u in
               (case retry w req of
                  Inl e \<Rightarrow> Some ([req], Inl e)
                | Inr resp \<Rightarrow>
                    if StatusCode resp \<noteq> 200 then Some ([req], Inl (newResponseError resp))
                    else
                      (case ParseInt (Header_Get (Header resp) ''Content-Length'') of
                         Inl _ \<Rightarrow>
                           Some ([req], Inl (FormatError ''s3: cannot parse content-length''))
                       | Inr s \<Rightarrow>
                           (case create_chunks minPartSize u s 0 [] of
                              None \<Rightarrow> None
                            | Some cs \<Rightarrow>
                                Some ([req], Inr (new_downloader concurrency cs, Header resp)))))))"

subsection \<open>Read\<close>

text \<open>
  \<^verbatim>\<open>d.once.Do(func() { for i := 0; i < concurrency; i++ { go d.download() } })\<close>.
\<close>

definition once_Do :: "nat \<Rightarrow> downloader \<Rightarrow> downloader" where
  "once_Do concurrency d =
     (if once d then d else d\<lparr>once := True, workers := replicate concurrency AtRange\<rparr>)"

text \<open>
  One round of the loop of \<^verbatim>\<open>io.MultiReader\<close>'s \<^verbatim>\<open>Read\<close>, which \<^verbatim>\<open>d.r.Read(p)\<close> runs:
  \<^verbatim>\<open>
  for len(mr.readers) > 0 {
      n, err = mr.readers[0].Read(p)
      if err == EOF { mr.readers = mr.readers[1:] }
      if n > 0 || err != EOF {
          if err == EOF && len(mr.readers) > 0 { err = nil }
          return
      }
  }
  return 0, EOF
  \<close>
\<close>

datatype iter =
    IBlocked
  | IPanic
  | IContinue downloader
  | IReturn downloader string "error option"

definition multi_iter :: "downloader \<Rightarrow> nat \<Rightarrow> iter" where
  "multi_iter d n =
     (case r_readers d of
        [] \<Rightarrow> IReturn d [] (Some EOF)
      | c # rest \<Rightarrow>
          (case chunk_Read (chunks d ! c) (readAhead d) n of
             Blocked \<Rightarrow> IBlocked
           | Panic \<Rightarrow> IPanic
           | Done (p, e, c', ra') \<Rightarrow>
               let d1 = d\<lparr>chunks := (chunks d)[c := c'], readAhead := ra',
                          r_readers := (if e = Some EOF then rest else c # rest)\<rparr>
               in if p \<noteq> [] \<or> e \<noteq> Some EOF
                  then IReturn d1 p (if e = Some EOF \<and> r_readers d1 \<noteq> [] then None else e)
                  else IContinue d1))"

text \<open>The whole loop, for a caller that runs alone: it blocks where a round blocks.\<close>

function multi_Read :: "downloader \<Rightarrow> nat \<Rightarrow> (downloader \<times> string \<times> error option) outcome" where
  "multi_Read d n =
     (case multi_iter d n of
        IBlocked \<Rightarrow> Blocked
      | IPanic \<Rightarrow> Panic
      | IReturn d' p e \<Rightarrow> Done (d', p, e)
      | IContinue d' \<Rightarrow> multi_Read d' n)"
  by pat_completeness auto
termination
  by (relation "measure (\<lambda>(d, n). length (r_readers d))")
     (auto simp: multi_iter_def Let_def split: list.splits outcome.splits if_splits)

text \<open>\<^verbatim>\<open>func (d *downloader) Read(p []byte) (int, error)\<close>, for a caller that runs alone.\<close>

definition Read ::
  "nat \<Rightarrow> downloader \<Rightarrow> nat \<Rightarrow> (downloader \<times> string \<times> error option) outcome" where
  "Read concurrency d n =
     (if downloader.err d \<noteq> None then Done (d, [], downloader.err d)
      else multi_Read (once_Do concurrency d) n)"

text \<open>\<^verbatim>\<open>func (d *downloader) Close() error\<close>.\<close>

definition Close :: "downloader \<Rightarrow> error option" where
  "Close d = (if downloader.err d \<noteq> None then downloader.err d else None)"

subsection \<open>WriteTo\<close>

text \<open>
  \<^verbatim>\<open>func (d *downloader) WriteTo(w io.Writer) (n int64, err error)\<close>. The sink is a
  state \<open>w\<close> with its \<^verbatim>\<open>Write\<close>, \<open>wr\<close>: the bytes it took, its error, its next state. The
  result is \<open>None\<close> when the loop never ends, \<open>Some WBlocked\<close> when a read blocks.
\<close>

datatype 'w written =
    WBlocked
  | WPanic
  | WReturn int "error option" downloader 'w

partial_function (option) WriteTo_loop ::
  "('w \<Rightarrow> string \<Rightarrow> nat \<times> error option \<times> 'w) \<Rightarrow> nat \<Rightarrow> nat \<Rightarrow> downloader \<Rightarrow> 'w \<Rightarrow> int \<Rightarrow>
   'w written option" where
  "WriteTo_loop wr concurrency len_buf d w n =
     (case Read concurrency d len_buf of
        Blocked \<Rightarrow> Some WBlocked
      | Panic \<Rightarrow> Some WPanic
      | Done (d', p, e) \<Rightarrow>
          if e \<noteq> None \<and> e \<noteq> Some EOF then Some (WReturn n e d' w)
          else (case wr w p of (m, e', w') \<Rightarrow>
                  if e' \<noteq> None \<or> e' = Some EOF then Some (WReturn (n + int m) e' d' w')
                  else WriteTo_loop wr concurrency len_buf d' w' (n + int m)))"

definition WriteTo ::
  "('w \<Rightarrow> string \<Rightarrow> nat \<times> error option \<times> 'w) \<Rightarrow> int \<Rightarrow> nat \<Rightarrow> downloader \<Rightarrow> 'w \<Rightarrow>
   'w written option" where
  "WriteTo wr minPartSize concurrency d w =
     (if minPartSize < 0 then Some WPanic
      else WriteTo_loop wr concurrency (nat minPartSize) d w 0)"

subsection \<open>The goroutines\<close>

text \<open>
  One event is one atomic action of one goroutine:
  \<^item> \<open>Call_Read n\<close>: the consumer calls \<^verbatim>\<open>d.Read(p)\<close> with \<open>len(p) = n\<close>, up to the call of
    \<^verbatim>\<open>d.r.Read(p)\<close>: the test of \<^verbatim>\<open>d.err\<close> and \<^verbatim>\<open>d.once.Do\<close>;
  \<^item> \<open>Reader_Iter\<close>: the consumer runs one round of the multi-reader's loop;
  \<^item> \<open>Worker_Recv i\<close>: worker \<open>i\<close> receives a chunk from \<^verbatim>\<open>d.chunks\<close> (the feeder sends it),
    or leaves the loop when the channel is closed and empty;
  \<^item> \<open>Worker_Download i\<close>: the \<^verbatim>\<open>c.Download()\<close> of worker \<open>i\<close> runs and returns;
  \<^item> \<open>Worker_SetErr i\<close>: worker \<open>i\<close> runs \<^verbatim>\<open>if err != nil { d.err = err }\<close>;
  \<^item> \<open>Worker_ReadAhead i\<close>: worker \<open>i\<close> receives from \<^verbatim>\<open>d.readAhead\<close>.
  \<open>step\<close> is \<open>None\<close> where the action cannot happen in the state (the goroutine is
  elsewhere, or blocked).
\<close>

datatype event =
    Call_Read nat
  | Reader_Iter
  | Worker_Recv nat
  | Worker_Download nat
  | Worker_SetErr nat
  | Worker_ReadAhead nat

definition worker_at :: "downloader \<Rightarrow> nat \<Rightarrow> worker option" where
  "worker_at d i = (if i < length (workers d) then Some (workers d ! i) else None)"

fun action :: "net \<Rightarrow> nat \<Rightarrow> event \<Rightarrow> downloader \<Rightarrow> downloader option" where
  "action w concurrency (Call_Read n) d =
     (case consumer d of
        InRead _ \<Rightarrow> None
      | Ready \<Rightarrow>
          if downloader.err d \<noteq> None
          then Some (d\<lparr>returns := returns d @ [([], downloader.err d)]\<rparr>)
          else Some ((once_Do concurrency d)\<lparr>consumer := InRead n\<rparr>))"
| "action w concurrency Reader_Iter d =
     (case consumer d of
        Ready \<Rightarrow> None
      | InRead n \<Rightarrow>
          (case multi_iter d n of
             IBlocked \<Rightarrow> None
           | IPanic \<Rightarrow> Some (d\<lparr>panicked := True\<rparr>)
           | IContinue d' \<Rightarrow> Some d'
           | IReturn d' p e \<Rightarrow> Some (d'\<lparr>returns := returns d' @ [(p, e)], consumer := Ready\<rparr>)))"
| "action w concurrency (Worker_Recv i) d =
     (case worker_at d i of
        Some AtRange \<Rightarrow>
          (case chunks_ch d of
             c # rest \<Rightarrow> Some (d\<lparr>chunks_ch := rest, workers := (workers d)[i := InDownload c]\<rparr>)
           | [] \<Rightarrow>
               if chunks_closed d then Some (d\<lparr>workers := (workers d)[i := Exited]\<rparr>)
               else None)
      | _ \<Rightarrow> None)"
| "action w concurrency (Worker_Download i) d =
     (case worker_at d i of
        Some (InDownload c) \<Rightarrow>
          (case Download w (chunks d ! c) of
             Blocked \<Rightarrow> None
           | Panic \<Rightarrow> Some (d\<lparr>panicked := True\<rparr>)
           | Done (c', e, rq) \<Rightarrow>
               Some (d\<lparr>chunks := (chunks d)[c := c'], requests := requests d @ rq,
                       workers := (workers d)[i := Returned e]\<rparr>))
      | _ \<Rightarrow> None)"
| "action w concurrency (Worker_SetErr i) d =
     (case worker_at d i of
        Some (Returned e) \<Rightarrow>
          Some (d\<lparr>err := (if e \<noteq> None then e else downloader.err d),
                  workers := (workers d)[i := AtReadAhead]\<rparr>)
      | _ \<Rightarrow> None)"
| "action w concurrency (Worker_ReadAhead i) d =
     (case worker_at d i of
        Some AtReadAhead \<Rightarrow>
          (case chan_recv (readAhead d) of
             None \<Rightarrow> None
           | Some ra' \<Rightarrow> Some (d\<lparr>readAhead := ra', workers := (workers d)[i := AtRange]\<rparr>))
      | _ \<Rightarrow> None)"

definition step :: "net \<Rightarrow> nat \<Rightarrow> event \<Rightarrow> downloader \<Rightarrow> downloader option" where
  "step w concurrency ev d = (if panicked d then None else action w concurrency ev d)"

text \<open>A run: the events of a list, one after the other; \<open>None\<close> when one cannot happen.\<close>

fun run :: "net \<Rightarrow> nat \<Rightarrow> event list \<Rightarrow> downloader \<Rightarrow> downloader option" where
  "run w concurrency [] d = Some d"
| "run w concurrency (ev # evs) d =
     (case step w concurrency ev d of
        None \<Rightarrow> None
      | Some d' \<Rightarrow> run w concurrency evs d')"

text \<open>The bytes the consumer has been given so far.\<close>

definition received :: "downloader \<Rightarrow> string" where
  "received d = concat (map fst (returns d))"

subsection \<open>Concurrent calls of Read\<close>

text \<open>
  Any number of goroutines may call \<^verbatim>\<open>d.Read\<close> at once. What keeps the workers from being
  started twice is \<^verbatim>\<open>d.once\<close>, a \<^verbatim>\<open>sync.Once\<close> of the Go library:
  \<^verbatim>\<open>
  func (o *Once) Do(f func()) {
      if atomic.LoadUint32(&o.done) == 0 { o.doSlow(f) }
  }
  func (o *Once) doSlow(f func()) {
      o.m.Lock()
      defer o.m.Unlock()
      if o.done == 0 {
          defer atomic.StoreUint32(&o.done, 1)
          f()
      }
  }
  \<close>
  with \<open>f\<close> the loop \<^verbatim>\<open>for i := 0; i < concurrency; i++ { go d.download() }\<close>. A caller of
  \<^verbatim>\<open>d.Read\<close> is at one of these places, with \<open>len(p)\<close>:
\<close>

datatype caller =
    Idle                \<comment> \<open>not in a call\<close>
  | AtOnce nat          \<comment> \<open>past the test of \<^verbatim>\<open>d.err\<close>, about to load \<^verbatim>\<open>o.done\<close>\<close>
  | AtLock nat          \<comment> \<open>in \<^verbatim>\<open>doSlow\<close>, at \<^verbatim>\<open>o.m.Lock()\<close>\<close>
  | Locked nat          \<comment> \<open>holds \<^verbatim>\<open>o.m\<close>, about to test \<^verbatim>\<open>o.done\<close> again\<close>
  | Spawning nat nat    \<comment> \<open>in \<open>f\<close>, at the head of its loop with this \<open>i\<close>\<close>
  | Storing nat         \<comment> \<open>\<open>f\<close> has returned, the deferred store of \<^verbatim>\<open>o.done\<close> is due\<close>
  | Unlocking nat       \<comment> \<open>the deferred \<^verbatim>\<open>o.m.Unlock()\<close> is due\<close>
  | Reading nat         \<comment> \<open>in \<^verbatim>\<open>d.r.Read(p)\<close>, at the head of its loop\<close>

text \<open>
  The downloader with its callers and the mutex \<^verbatim>\<open>o.m\<close> of \<^verbatim>\<open>d.once\<close>: \<open>None\<close> when free,
  the caller that locked it otherwise. The field \<open>once\<close> of the downloader is \<^verbatim>\<open>o.done\<close>;
  its field \<open>consumer\<close> is not used here.
\<close>

record system =
  dl :: downloader
  callers :: "caller list"
  once_m :: "nat option"

text \<open>
  The actions: those of caller \<open>c\<close>, one per place, and those of the workers, which
  are the worker events of \<open>step\<close>. The rounds of \<^verbatim>\<open>d.r.Read\<close> are those of \<open>multi_iter\<close>.
\<close>

datatype sys_event =
    Enter nat nat       \<comment> \<open>caller \<open>c\<close> calls \<^verbatim>\<open>d.Read(p)\<close> and tests \<^verbatim>\<open>d.err\<close>\<close>
  | Once_Load nat       \<comment> \<open>\<^verbatim>\<open>if atomic.LoadUint32(&o.done) == 0\<close>\<close>
  | Once_Lock nat       \<comment> \<open>\<^verbatim>\<open>o.m.Lock()\<close>\<close>
  | Once_Test nat       \<comment> \<open>\<^verbatim>\<open>if o.done == 0\<close>\<close>
  | Once_Go nat         \<comment> \<open>\<^verbatim>\<open>i < concurrency\<close> holds: \<^verbatim>\<open>go d.download(); i++\<close>\<close>
  | Once_Return nat     \<comment> \<open>\<^verbatim>\<open>i < concurrency\<close> fails: \<open>f\<close> returns\<close>
  | Once_Store nat      \<comment> \<open>\<^verbatim>\<open>atomic.StoreUint32(&o.done, 1)\<close>\<close>
  | Once_Unlock nat     \<comment> \<open>\<^verbatim>\<open>o.m.Unlock()\<close>\<close>
  | Round nat           \<comment> \<open>one round of the loop of \<^verbatim>\<open>d.r.Read(p)\<close>\<close>
  | Worker event        \<comment> \<open>an action of a worker\<close>

definition caller_at :: "system \<Rightarrow> nat \<Rightarrow> caller option" where
  "caller_at s c = (if c < length (callers s) then Some (callers s ! c) else None)"

definition move :: "system \<Rightarrow> nat \<Rightarrow> caller \<Rightarrow> system" where
  "move s c x = s\<lparr>callers := (callers s)[c := x]\<rparr>"

fun is_worker :: "event \<Rightarrow> bool" where
  "is_worker (Call_Read n) = False"
| "is_worker Reader_Iter = False"
| "is_worker (Worker_Recv i) = True"
| "is_worker (Worker_Download i) = True"
| "is_worker (Worker_SetErr i) = True"
| "is_worker (Worker_ReadAhead i) = True"

fun sys_action :: "net \<Rightarrow> nat \<Rightarrow> sys_event \<Rightarrow> system \<Rightarrow> system option" where
  "sys_action w concurrency (Enter c n) s =
     (case caller_at s c of
        Some Idle \<Rightarrow>
          if downloader.err (dl s) \<noteq> None
          then Some (s\<lparr>dl := (dl s)\<lparr>returns := returns (dl s) @ [([], downloader.err (dl s))]\<rparr>\<rparr>)
          else Some (move s c (AtOnce n))
      | _ \<Rightarrow> None)"
| "sys_action w concurrency (Once_Load c) s =
     (case caller_at s c of
        Some (AtOnce n) \<Rightarrow>
          if once (dl s) then Some (move s c (Reading n)) else Some (move s c (AtLock n))
      | _ \<Rightarrow> None)"
| "sys_action w concurrency (Once_Lock c) s =
     (case caller_at s c of
        Some (AtLock n) \<Rightarrow>
          (case once_m s of
             Some _ \<Rightarrow> None
           | None \<Rightarrow> Some ((move s c (Locked n))\<lparr>once_m := Some c\<rparr>))
      | _ \<Rightarrow> None)"
| "sys_action w concurrency (Once_Test c) s =
     (case caller_at s c of
        Some (Locked n) \<Rightarrow>
          if once (dl s) then Some (move s c (Unlocking n)) else Some (move s c (Spawning 0 n))
      | _ \<Rightarrow> None)"
| "sys_action w concurrency (Once_Go c) s =
     (case caller_at s c of
        Some (Spawning i n) \<Rightarrow>
          if i < concurrency
          then Some ((move s c (Spawning (i + 1) n))
                       \<lparr>dl := (dl s)\<lparr>workers := workers (dl s) @ [AtRange]\<rparr>\<rparr>)
          else None
      | _ \<Rightarrow> None)"
| "sys_action w concurrency (Once_Return c) s =
     (case caller_at s c of
        Some (Spawning i n) \<Rightarrow> if i < concurrency then None else Some (move s c (Storing n))
      | _ \<Rightarrow> None)"
| "sys_action w concurrency (Once_Store c) s =
     (case caller_at s c of
        Some (Storing n) \<Rightarrow> Some ((move s c (Unlocking n))\<lparr>dl := (dl s)\<lparr>once := True\<rparr>\<rparr>)
      | _ \<Rightarrow> None)"
| "sys_action w concurrency (Once_Unlock c) s =
     (case caller_at s c of
        Some (Unlocking n) \<Rightarrow> Some ((move s c (Reading n))\<lparr>once_m := None\<rparr>)
      | _ \<Rightarrow> None)"
| "sys_action w concurrency (Round c) s =
     (case caller_at s c of
        Some (Reading n) \<Rightarrow>
          (case multi_iter (dl s) n of
             IBlocked \<Rightarrow> None
           | IPanic \<Rightarrow> Some (s\<lparr>dl := (dl s)\<lparr>panicked := True\<rparr>\<rparr>)
           | IContinue d' \<Rightarrow> Some (s\<lparr>dl := d'\<rparr>)
           | IReturn d' p e \<Rightarrow>
               Some ((move s c Idle)\<lparr>dl := d'\<lparr>returns := returns d' @ [(p, e)]\<rparr>\<rparr>))
      | _ \<Rightarrow> None)"
| "sys_action w concurrency (Worker ev) s =
     (if is_worker ev
      then (case step w concurrency ev (dl s) of
              None \<Rightarrow> None
            | Some d' \<Rightarrow> Some (s\<lparr>dl := d'\<rparr>))
      else None)"

definition sys_step :: "net \<Rightarrow> nat \<Rightarrow> sys_event \<Rightarrow> system \<Rightarrow> system option" where
  "sys_step w concurrency ev s =
     (if panicked (dl s) then None else sys_action w concurrency ev s)"

fun sys_run :: "net \<Rightarrow> nat \<Rightarrow> sys_event list \<Rightarrow> system \<Rightarrow> system option" where
  "sys_run w concurrency [] s = Some s"
| "sys_run w concurrency (ev # evs) s =
     (case sys_step w concurrency ev s of
        None \<Rightarrow> None
      | Some s' \<Rightarrow> sys_run w concurrency evs s')"

text \<open>After \<^verbatim>\<open>Open\<close>: the downloader it returns, \<open>m\<close> goroutines that may call \<^verbatim>\<open>Read\<close>.\<close>

definition sys_init :: "nat \<Rightarrow> chunk list \<Rightarrow> nat \<Rightarrow> system" where
  "sys_init concurrency cs m =
     \<lparr>dl = new_downloader concurrency cs, callers = replicate m Idle, once_m = None\<rparr>"

text \<open>The \<^verbatim>\<open>go\<close> statements among the events, and the entries into \<^verbatim>\<open>Read\<close>.\<close>

fun is_go :: "sys_event \<Rightarrow> bool" where
  "is_go (Once_Go c) = True"
| "is_go _ = False"

fun is_enter :: "sys_event \<Rightarrow> bool" where
  "is_enter (Enter c n) = True"
| "is_enter _ = False"

text \<open>
  A goroutine in \<^verbatim>\<open>WriteTo\<close> is a caller like the others: \<^verbatim>\<open>WriteTo\<close> reaches \<^verbatim>\<open>d.once\<close> only
  through its calls of \<^verbatim>\<open>d.Read\<close>. The events of one call from \<^verbatim>\<open>d.once.Do\<close> to its return,
  when the workers are still to be started and nobody comes between:
\<close>

definition Do_events :: "nat \<Rightarrow> nat \<Rightarrow> sys_event list" where
  "Do_events c concurrency =
     [Once_Load c, Once_Lock c, Once_Test c] @ replicate concurrency (Once_Go c) @
     [Once_Return c, Once_Store c, Once_Unlock c]"

subsection \<open>A mock server\<close>

text \<open>
  A server for concrete runs: every URL parses, the probe is answered by \<open>probe\<close>, a
  range request by \<open>get\<close>.
\<close>

definition mock :: "response \<Rightarrow> (int \<times> int \<Rightarrow> error + response) \<Rightarrow> net" where
  "mock probe get =
     \<lparr>url_Parse = (\<lambda>uri. Inr uri),
      NewRequest = (\<lambda>m u. None),
      retry = (\<lambda>rq. case req_range rq of None \<Rightarrow> Inr probe | Some rg \<Rightarrow> get rg)\<rparr>"

definition ok_probe :: "string \<Rightarrow> response" where
  "ok_probe content_length =
     \<lparr>StatusCode = 200, Header = [(''Content-Length'', [content_length])], Body = ([], None)\<rparr>"

definition forbidden :: response where
  "forbidden = \<lparr>StatusCode = 403, Header = [], Body = (''denied'', None)\<rparr>"

definition partial_content :: "string \<Rightarrow> error + response" where
  "partial_content body = Inr \<lparr>StatusCode = 206, Header = [], Body = (body, None)\<rparr>"

text \<open>The server of the end-to-end scenario: 25 bytes, served in ranges.\<close>

definition abc :: "int \<times> int \<Rightarrow> error + response" where
  "abc rg =
     (if fst rg = 0 then partial_content ''AAAAAAAAAA''
      else if fst rg = 10 then partial_content ''BBBBBBBBBB''
      else partial_content ''CCCCC'')"

text \<open>A chunk as \<^verbatim>\<open>Open\<close> creates it, for the range \<open>rg\<close> of the URL \<open>u\<close>.\<close>

definition new_chunk :: "string \<Rightarrow> int \<times> int \<Rightarrow> chunk" where
  "new_chunk u rg = \<lparr>buf = Some [], done_c = False, header = rg, url = u, err = None\<rparr>"

subsection \<open>Runs of the end-to-end scenario\<close>

text \<open>
  The scenario of the spec: 25 bytes in parts of at most 10, with the ranges \<^verbatim>\<open>Open\<close>
  builds for them, two workers, and a consumer that reads with a buffer of 10 bytes. The
  second chunk is downloaded before the first.
\<close>

definition abc_net :: net where
  "abc_net = mock (ok_probe ''25'') abc"

definition abc_chunks :: "chunk list" where
  "abc_chunks = map (new_chunk ''x'') [(0, 9), (10, 19), (20, 29)]"

definition abc_events :: "event list" where
  "abc_events =
     [Call_Read 10, Worker_Recv 0, Worker_Recv 1, Worker_Download 1, Worker_Download 0,
      Worker_SetErr 0, Worker_SetErr 1, Reader_Iter,
      Call_Read 10, Reader_Iter, Worker_ReadAhead 0, Worker_Recv 0, Worker_Download 0,
      Worker_SetErr 0, Reader_Iter,
      Call_Read 10, Reader_Iter, Reader_Iter,
      Call_Read 10, Reader_Iter, Reader_Iter,
      Worker_ReadAhead 0, Worker_ReadAhead 1]"

text \<open>The state at the end of that run.\<close>

definition abc_final :: downloader where
  "abc_final =
     \<lparr>chunks =
        [\<lparr>buf = None, done_c = True, header = (0, 9), url = ''x'', err = None\<rparr>,
         \<lparr>buf = None, done_c = True, header = (10, 19), url = ''x'', err = None\<rparr>,
         \<lparr>buf = None, done_c = True, header = (20, 29), url = ''x'', err = None\<rparr>],
      r_readers = [], chunks_ch = [], chunks_closed = False,
      readAhead = \<lparr>held = 0, cap = 2\<rparr>, once = True, err = None,
      workers = [AtRange, AtRange], consumer = Ready,
      returns = [(''AAAAAAAAAA'', None), (''BBBBBBBBBB'', None), (''CCCCC'', None),
                 ([], Some EOF)],
      requests =
        [\<lparr>req_method = ''GET'', req_url = ''x'', req_range = Some (10, 19)\<rparr>,
         \<lparr>req_method = ''GET'', req_url = ''x'', req_range = Some (0, 9)\<rparr>,
         \<lparr>req_method = ''GET'', req_url = ''x'', req_range = Some (20, 29)\<rparr>],
      panicked = False\<rparr>"

text \<open>The same server, refusing the range that starts at byte \<open>i\<close> with status 403.\<close>

definition denied_at :: "int \<Rightarrow> int \<times> int \<Rightarrow> error + response" where
  "denied_at i rg = (if fst rg = i then Inr forbidden else abc rg)"

text \<open>A sink that takes every write: it appends the bytes to what it holds.\<close>

definition append_sink :: "string \<Rightarrow> string \<Rightarrow> nat \<times> error option \<times> string" where
  "append_sink w p = (length p, None, w @ p)"

text \<open>
  Two goroutines whose first calls of \<^verbatim>\<open>Read\<close> race: both pass the test of \<^verbatim>\<open>d.err\<close> and
  both load \<^verbatim>\<open>o.done\<close> as 0; caller 1 takes the mutex, starts the two workers, stores
  \<^verbatim>\<open>o.done\<close> and unlocks; then caller 0 takes the mutex, finds \<^verbatim>\<open>o.done\<close> stored and unlocks.
\<close>

definition race :: "sys_event list" where
  "race = [Enter 0 10, Enter 1 10, Once_Load 0, Once_Load 1,
           Once_Lock 1, Once_Test 1, Once_Go 1, Once_Go 1, Once_Return 1, Once_Store 1,
           Once_Unlock 1,
           Once_Lock 0, Once_Test 0, Once_Unlock 0]"

subsection \<open>Measures and invariants of the goroutines\<close>

text \<open>
  A worker is busy from the moment it has received a chunk until it has received from
  \<^verbatim>\<open>d.readAhead\<close>.
\<close>

fun busy1 :: "worker \<Rightarrow> nat" where
  "busy1 AtRange = 0"
| "busy1 (InDownload c) = 1"
| "busy1 (Returned e) = 1"
| "busy1 AtReadAhead = 1"
| "busy1 Exited = 0"

definition busy :: "downloader \<Rightarrow> nat" where
  "busy d = sum_list (map busy1 (workers d))"

text \<open>
  The chunks the workers have received from \<^verbatim>\<open>d.chunks\<close>, and the chunks the multi-reader
  has dropped, having read them to their end.
\<close>

definition claimed :: "downloader \<Rightarrow> nat" where
  "claimed d = length (chunks d) - length (chunks_ch d)"

definition drained :: "downloader \<Rightarrow> nat" where
  "drained d = length (chunks d) - length (r_readers d)"

text \<open>Before \<^verbatim>\<open>d.once\<close> has run nothing has happened; after it there are the workers.\<close>

definition started :: "nat \<Rightarrow> downloader \<Rightarrow> bool" where
  "started k d \<longleftrightarrow>
     \<not> chunks_closed d \<and> Exited \<notin> set (workers d) \<and> cap (readAhead d) = k \<and>
     (if once d then length (workers d) = k
      else workers d = [] \<and> requests d = [] \<and> downloader.err d = None \<and> consumer d = Ready \<and>
           held (readAhead d) = 0 \<and> length (chunks_ch d) = length (chunks d) \<and>
           length (r_readers d) = length (chunks d))"

text \<open>The counting invariant of the admission window.\<close>

definition window :: "downloader \<Rightarrow> bool" where
  "window d \<longleftrightarrow>
     length (r_readers d) + held (readAhead d) \<le> length (chunks_ch d) + busy d \<and>
     length (chunks_ch d) \<le> length (chunks d) \<and>
     length (r_readers d) + held (readAhead d) \<le> length (chunks d)"

text \<open>A chunk nobody has touched yet.\<close>

definition fresh :: "chunk \<Rightarrow> bool" where
  "fresh c \<longleftrightarrow> \<not> done_c c \<and> buf c = Some []"

text \<open>
  Who owns which chunk: a chunk still in \<^verbatim>\<open>d.chunks\<close> or in a \<^verbatim>\<open>Download\<close> is fresh, no
  two workers download the same chunk, a downloaded chunk the reader has not dropped has
  its buffer, and no chunk has its \<^verbatim>\<open>err\<close> set.
\<close>

definition tidy :: "downloader \<Rightarrow> bool" where
  "tidy d \<longleftrightarrow>
     \<not> panicked d \<and> distinct (r_readers d) \<and> distinct (chunks_ch d) \<and>
     (\<forall>c \<in> set (r_readers d). c < length (chunks d) \<and>
        (done_c (chunks d ! c) \<longrightarrow> buf (chunks d ! c) \<noteq> None)) \<and>
     (\<forall>c \<in> set (chunks_ch d). c < length (chunks d) \<and> fresh (chunks d ! c)) \<and>
     (\<forall>c \<in> set (chunks d). chunk.err c = None) \<and>
     (\<forall>c. InDownload c \<in> set (workers d) \<longrightarrow>
        c < length (chunks d) \<and> c \<notin> set (chunks_ch d) \<and> fresh (chunks d ! c)) \<and>
     (\<forall>c. count_list (workers d) (InDownload c) \<le> 1)"

text \<open>
  A server that serves a chunk: the request can be built, the answer is 206 and its
  body reads to the end. \<open>payload\<close> is that body.
\<close>

definition succeeds :: "net \<Rightarrow> chunk \<Rightarrow> bool" where
  "succeeds w c \<longleftrightarrow>
     NewRequest w ''GET'' (url c) = None \<and>
     (case retry w (get_request c) of
        Inl e \<Rightarrow> False
      | Inr resp \<Rightarrow> StatusCode resp = 206 \<and> snd (Body resp) = None)"

definition payload :: "net \<Rightarrow> chunk \<Rightarrow> string" where
  "payload w c = (case retry w (get_request c) of Inl e \<Rightarrow> [] | Inr resp \<Rightarrow> fst (Body resp))"

text \<open>What the consumer has still to get from a chunk.\<close>

definition unread :: "net \<Rightarrow> chunk \<Rightarrow> string" where
  "unread w c =
     (if done_c c then (case buf c of None \<Rightarrow> [] | Some b \<Rightarrow> b) else payload w c)"

text \<open>
  With a server that serves every chunk: no error is ever recorded, what the consumer has
  received and what is unread in the chunks it has not dropped make up the stream \<open>B\<close>,
  and the only error a \<^verbatim>\<open>Read\<close> has returned is \<^verbatim>\<open>io.EOF\<close>, after the last chunk.
\<close>

definition faithful :: "net \<Rightarrow> string \<Rightarrow> downloader \<Rightarrow> bool" where
  "faithful w B d \<longleftrightarrow>
     downloader.err d = None \<and> (\<forall>e. Returned (Some e) \<notin> set (workers d)) \<and>
     (\<forall>c \<in> set (chunks d). succeeds w c) \<and>
     received d @ concat (map (\<lambda>c. unread w (chunks d ! c)) (r_readers d)) = B \<and>
     (\<forall>p e. (p, Some e) \<in> set (returns d) \<longrightarrow> e = EOF \<and> r_readers d = [])"

text \<open>
  The two queues are what is left of the chunks in their order, the consumer is never
  ahead of the workers, the values in \<^verbatim>\<open>d.readAhead\<close> are counted exactly, and a chunk that
  is not downloaded yet is in \<^verbatim>\<open>d.chunks\<close> or with a worker.
\<close>

definition ordered :: "downloader \<Rightarrow> bool" where
  "ordered d \<longleftrightarrow>
     r_readers d = [drained d..<length (chunks d)] \<and>
     chunks_ch d = [claimed d..<length (chunks d)] \<and>
     length (chunks_ch d) \<le> length (r_readers d) \<and>
     length (r_readers d) \<le> length (chunks d) \<and>
     length (r_readers d) + held (readAhead d) = length (chunks_ch d) + busy d \<and>
     (\<forall>c < length (chunks d). \<not> done_c (chunks d ! c) \<longrightarrow>
        c \<in> set (chunks_ch d) \<or> InDownload c \<in> set (workers d))"

text \<open>
  What is left to do before the consumer has the whole stream \<open>B\<close>: every action but a
  call of \<^verbatim>\<open>Read\<close> makes it smaller.
\<close>

fun phase :: "worker \<Rightarrow> nat" where
  "phase AtRange = 0"
| "phase (InDownload c) = 3"
| "phase (Returned e) = 2"
| "phase AtReadAhead = 1"
| "phase Exited = 0"

definition todo :: "string \<Rightarrow> downloader \<Rightarrow> nat" where
  "todo B d =
     4 * length (chunks_ch d) + sum_list (map phase (workers d)) + length (r_readers d) +
     2 * (length B - length (received d)) +
     (case consumer d of Ready \<Rightarrow> 1 | InRead n \<Rightarrow> if n = 0 then 2 else 0)"

text \<open>A downloader read to its end, and a sink whose \<^verbatim>\<open>Write\<close> never fails.\<close>

definition exhausted :: "downloader \<Rightarrow> bool" where
  "exhausted d \<longleftrightarrow> downloader.err d = None \<and> r_readers d = []"

definition accepting :: "('w \<Rightarrow> string \<Rightarrow> nat \<times> error option \<times> 'w) \<Rightarrow> bool" where
  "accepting wr \<longleftrightarrow> (\<forall>w p. fst (snd (wr w p)) = None)"

text \<open>
  For the callers of \<^verbatim>\<open>Read\<close>: those between \<^verbatim>\<open>o.m.Lock()\<close> and \<^verbatim>\<open>o.m.Unlock()\<close>.
\<close>
fun critical :: "caller \<Rightarrow> bool" where
  "critical (Locked n) = True"
| "critical (Spawning i n) = True"
| "critical (Storing n) = True"
| "critical (Unlocking n) = True"
| "critical _ = False"

text \<open>The workers a caller has started in \<open>f\<close>.\<close>

fun spawned :: "nat \<Rightarrow> caller \<Rightarrow> nat" where
  "spawned k (Spawning i n) = i"
| "spawned k (Storing n) = k"
| "spawned k _ = 0"

text \<open>What a caller at its place knows of \<^verbatim>\<open>o.done\<close>.\<close>

fun caller_ok :: "nat \<Rightarrow> bool \<Rightarrow> caller \<Rightarrow> bool" where
  "caller_ok k dn (Spawning i n) = (\<not> dn \<and> i \<le> k)"
| "caller_ok k dn (Storing n) = (\<not> dn)"
| "caller_ok k dn (Unlocking n) = dn"
| "caller_ok k dn (Reading n) = dn"
| "caller_ok k dn _ = True"

text \<open>
  The invariant of \<^verbatim>\<open>d.once\<close>: the mutex is held by the one caller that is between lock
  and unlock; once \<^verbatim>\<open>o.done\<close> is stored there are \<^verbatim>\<open>concurrency\<close> workers, and before that
  the workers are those the holder of the mutex has started.
\<close>

definition once_inv :: "nat \<Rightarrow> system \<Rightarrow> bool" where
  "once_inv k s \<longleftrightarrow>
     (\<forall>c < length (callers s). critical (callers s ! c) \<longrightarrow> once_m s = Some c) \<and>
     (\<forall>h. once_m s = Some h \<longrightarrow> h < length (callers s) \<and> critical (callers s ! h)) \<and>
     (\<forall>c \<in> set (callers s). caller_ok k (once (dl s)) c) \<and>
     (once (dl s) \<longrightarrow> length (workers (dl s)) = k) \<and>
     (\<not> once (dl s) \<longrightarrow>
        length (workers (dl s)) =
          (case once_m s of None \<Rightarrow> 0 | Some h \<Rightarrow> spawned k (callers s ! h)))"

text \<open>
  The callers that are in a call of \<^verbatim>\<open>Read\<close> and have not yet come out of \<^verbatim>\<open>d.once.Do\<close>; a
  system where there is none; and one where \<^verbatim>\<open>o.done\<close> is stored or a caller is on its way
  to store it.
\<close>

fun starting :: "caller \<Rightarrow> bool" where
  "starting Idle = False"
| "starting (Reading n) = False"
| "starting _ = True"

definition settled :: "system \<Rightarrow> bool" where
  "settled s \<longleftrightarrow> (\<forall>c \<in> set (callers s). \<not> starting c)"

definition live :: "system \<Rightarrow> bool" where
  "live s \<longleftrightarrow> once (dl s) \<or> (\<exists>c \<in> set (callers s). starting c)"

declare create_chunks.simps [code]
declare WriteTo_loop.simps [code]

section \<open>Properties\<close>

subsection \<open>Open: the partition\<close>

lemmas parse_defs = ParseInt_def ParseUint_def digit_of_def Header_Get_def

text \<open>
  C1 (partition correctness). For a length of 25 bytes and a part size of 10 the claim
  has three chunks of 10, 10 and 5 bytes that cover exactly \<open>[0, 25)\<close>. \<^verbatim>\<open>Open\<close> computes
  \<^verbatim>\<open>size := min64(minPartSize, s)\<close> from the whole length \<open>s\<close>, not from what is left of it:
  the third range it builds is \<^verbatim>\<open>bytes=20-29\<close>, 10 bytes long and 5 bytes past the end.
\<close>

theorem Open_partition_25_10:
  "Open (mock (ok_probe ''25'') abc) 10 3 ''x'' =
     Some ([head_request ''x''],
           Inr (new_downloader 3 (map (new_chunk ''x'') [(0, 9), (10, 19), (20, 29)]),
                [(''Content-Length'', [''25''])]))"
  by (simp add: Open_def mock_def ok_probe_def parse_defs head_request_def
      create_chunks.simps min64_def wrap64_def new_chunk_def)

text \<open>
  What the loop builds in general, for a positive part size and a positive length (and no
  overflow): parts of \<open>min64 minPartSize s\<close> bytes each, one after the other from byte 0,
  as many as it takes to reach \<open>s\<close>. The last part is as long as the others.
\<close>

lemma wrap64_id: "- (2 ^ 63) \<le> x \<Longrightarrow> x < 2 ^ 63 \<Longrightarrow> wrap64 x = x"
  by (simp add: wrap64_def)

lemma ceil_div_pos:
  fixes z d :: int
  assumes "0 < z" and "0 < d"
  shows "1 \<le> (d + z - 1) div z"
proof -
  from assms have "z \<le> d + z - 1" by simp
  with pos_imp_zdiv_pos_iff [OF assms(1), of "d + z - 1"] have "0 < (d + z - 1) div z" by simp
  then show ?thesis by simp
qed

lemma ceil_div_nonpos:
  fixes z d :: int
  assumes "0 < z" and "d \<le> 0"
  shows "(d + z - 1) div z \<le> 0"
proof -
  from assms have "(d + z - 1) div z \<le> (z - 1) div z"
    by (intro zdiv_mono1) auto
  also from assms(1) have "(z - 1) div z = 0" by (simp add: div_pos_pos_trivial)
  finally show ?thesis .
qed

lemma ceil_div_step:
  fixes z d :: int
  assumes "0 < z"
  shows "(d - z + z - 1) div z = (d + z - 1) div z - 1"
proof -
  have "(d + z - 1) div z = ((d - 1) + z) div z" by (simp add: algebra_simps)
  also have "\<dots> = (d - 1) div z + 1" using assms div_add_self2 [of z "d - 1"] by simp
  finally show ?thesis by simp
qed

lemma create_chunks_ranges:
  assumes "0 < S" and "0 < s" and "s + S \<le> 2 ^ 63" and "0 \<le> i"
    and "n = nat ((s - i + min64 S s - 1) div min64 S s)"
  shows "create_chunks S u s i acc =
     Some (acc @ map (\<lambda>j. new_chunk u (i + int j * min64 S s, i + int j * min64 S s + min64 S s - 1))
                   [0..<n])"
  using assms(4,5)
proof (induction n arbitrary: i acc)
  case 0
  have z: "0 < min64 S s" using assms(1,2) by (simp add: min64_def)
  have "\<not> i < s"
  proof
    assume "i < s"
    then have "1 \<le> (s - i + min64 S s - 1) div min64 S s"
      by (intro ceil_div_pos z) simp
    with 0(2) show False by simp
  qed
  then show ?case by (simp add: create_chunks.simps)
next
  case (Suc n)
  let ?z = "min64 S s"
  have z: "0 < ?z" "?z \<le> S" using assms(1,2) by (auto simp: min64_def)
  have lt: "i < s"
  proof (rule ccontr)
    assume "\<not> i < s"
    then have "(s - i + ?z - 1) div ?z \<le> 0"
      by (intro ceil_div_nonpos z) simp
    with Suc.prems(2) show False by simp
  qed
  have w1: "wrap64 (i + ?z) = i + ?z" and w2: "wrap64 (i + ?z - 1) = i + ?z - 1"
    using lt z assms(3) Suc.prems(1) by (auto intro!: wrap64_id)
  have "(s - (i + ?z) + ?z - 1) div ?z = (s - i + ?z - 1) div ?z - 1"
    using ceil_div_step [OF z(1), of "s - i"] by (simp add: algebra_simps)
  with Suc.prems(2) have n: "n = nat ((s - (i + ?z) + ?z - 1) div ?z)" by simp
  have "0 \<le> i + ?z" using Suc.prems(1) z by simp
  from Suc.IH [OF this n, of "acc @ [new_chunk u (i, i + ?z - 1)]"]
  have "create_chunks S u s (i + ?z) (acc @ [new_chunk u (i, i + ?z - 1)]) =
      Some (acc @ new_chunk u (i, i + ?z - 1) #
        map (\<lambda>j. new_chunk u (i + ?z + int j * ?z, i + ?z + int j * ?z + ?z - 1)) [0..<n])"
    by simp
  also have "new_chunk u (i, i + ?z - 1) #
        map (\<lambda>j. new_chunk u (i + ?z + int j * ?z, i + ?z + int j * ?z + ?z - 1)) [0..<n]
      = map (\<lambda>j. new_chunk u (i + int j * ?z, i + int j * ?z + ?z - 1)) [0..<Suc n]"
    unfolding map_upt_Suc by (simp add: algebra_simps)
  finally show ?case
    using lt by (subst create_chunks.simps) (simp add: w1 w2 new_chunk_def Let_def)
qed

lemma create_chunks_empty: "s \<le> 0 \<Longrightarrow> create_chunks S u s 0 acc = Some acc"
  by (simp add: create_chunks.simps)

subsection \<open>Open: the probe\<close>


lemma ParseInt_examples:
  "ParseInt ''25'' = Inr 25" "ParseInt ''+5'' = Inr 5" "ParseInt ''-5'' = Inr (- 5)"
  "ParseInt [] = Inl ErrSyntax" "ParseInt ''1_0'' = Inl ErrSyntax"
  "ParseInt ''2x'' = Inl ErrSyntax"
  "ParseInt ''9223372036854775807'' = Inr 9223372036854775807"
  "ParseInt ''9223372036854775808'' = Inl ErrRange"
  "ParseInt ''-9223372036854775808'' = Inr (- 9223372036854775808)"
  by (simp_all add: parse_defs)


lemma Open_Inr:
  "Open w S k uri = Some (rq, Inr (d, h)) \<Longrightarrow>
   \<exists>u resp s. url_Parse w uri = Inr u \<and> NewRequest w ''HEAD'' u = None \<and>
     retry w (head_request u) = Inr resp \<and> StatusCode resp = 200 \<and>
     ParseInt (Header_Get (Header resp) ''Content-Length'') = Inr s \<and>
     create_chunks S u s 0 [] = Some (chunks d) \<and> d = new_downloader k (chunks d) \<and>
     h = Header resp"
  by (auto simp: Open_def Let_def head_request_def new_downloader_def
      split: sum.splits option.splits if_splits)




subsection \<open>Chunks\<close>




subsection \<open>Runs\<close>

lemma run_invariant:
  assumes "P d" and "\<And>ev d d'. P d \<Longrightarrow> step w k ev d = Some d' \<Longrightarrow> P d'"
    and "run w k evs d = Some d'"
  shows "P d'"
  using assms(1,3)
  by (induction evs arbitrary: d) (auto split: option.splits intro: assms(2))

lemma in_set_update:
  "y \<in> set (ws[i := x]) \<Longrightarrow> y = x \<or> y \<in> set ws"
  using set_update_subset_insert [of ws i x] by auto

lemma replicate_2: "replicate 2 x = [x, x]"
  by (simp add: numeral_2_eq_2)

lemmas run_defs = step_def multi_iter_def chunk_Read_def Buffer_Read_def chan_send_def
  chan_recv_def Download_def close_done_def worker_at_def once_Do_def new_downloader_def
  new_chunk_def get_request_def mock_def abc_def denied_at_def partial_content_def
  forbidden_def newResponseError_def replicate_2

text \<open>The run of the scenario, event by event.\<close>

lemma abc_run: "run abc_net 2 abc_events (new_downloader 2 abc_chunks) = Some abc_final"
  unfolding abc_events_def abc_chunks_def abc_net_def abc_final_def
  by (simp add: run_defs)

text \<open>The chunks \<^verbatim>\<open>Open\<close> creates are new chunks of the URL, whatever their ranges.\<close>

lemma create_chunks_new_chunk:
  "create_chunks S u s i acc = Some cs \<Longrightarrow> \<exists>rs. cs = acc @ map (new_chunk u) rs"
proof (induction rule: create_chunks.raw_induct [rotated 1, consumes 1])
  case (1 cc S u s i acc cs)
  show ?case
  proof (cases "i < s")
    case True
    with 1(2) obtain c where "cc S u s (wrap64 (i + min64 S s)) (acc @ [new_chunk u c]) = Some cs"
      by (auto simp: Let_def new_chunk_def)
    from 1(1) [OF this] obtain rs where "cs = (acc @ [new_chunk u c]) @ map (new_chunk u) rs"
      by blast
    then have "cs = acc @ map (new_chunk u) (c # rs)" by simp
    then show ?thesis by blast
  next
    case False
    with 1(2) have "cs = acc @ map (new_chunk u) []" by simp
    then show ?thesis by blast
  qed
qed

lemma Open_downloader:
  assumes "Open w S k uri = Some (rq, Inr (d, h))"
  shows "\<exists>u rs. d = new_downloader k (map (new_chunk u) rs)"
proof -
  from Open_Inr [OF assms] obtain u s where
    "create_chunks S u s 0 [] = Some (chunks d)" and d: "d = new_downloader k (chunks d)"
    by blast
  from create_chunks_new_chunk [OF this(1)] obtain rs where "chunks d = map (new_chunk u) rs"
    by auto
  with d show ?thesis by metis
qed

subsection \<open>The rounds of the multi-reader\<close>

lemma multi_iter_shape:
  "multi_iter d n = IContinue d' \<or> (\<exists>p e. multi_iter d n = IReturn d' p e) \<Longrightarrow>
   length (chunks d') = length (chunks d) \<and> chunks_ch d' = chunks_ch d \<and> workers d' = workers d \<and>
   once d' = once d \<and> chunks_closed d' = chunks_closed d \<and> requests d' = requests d \<and>
   downloader.err d' = downloader.err d \<and> panicked d' = panicked d \<and> returns d' = returns d \<and>
   consumer d' = consumer d \<and> cap (readAhead d') = cap (readAhead d) \<and>
   length (r_readers d') \<le> length (r_readers d) \<and>
   length (r_readers d') + held (readAhead d') \<le> length (r_readers d) + held (readAhead d)"
  by (auto simp: multi_iter_def chunk_Read_def Buffer_Read_def chan_send_def Let_def
      split: list.splits outcome.splits if_splits option.splits prod.splits)


lemma Reader_Iter_step:
  assumes "step w k Reader_Iter d = Some d'"
  obtains n where "consumer d = InRead n" and "multi_iter d n = IPanic" and "d' = d\<lparr>panicked := True\<rparr>"
  | n where "consumer d = InRead n" and "multi_iter d n = IContinue d'"
  | n d1 p e where "consumer d = InRead n" and "multi_iter d n = IReturn d1 p e"
      and "d' = d1\<lparr>returns := returns d1 @ [(p, e)], consumer := Ready\<rparr>"
  using assms by (auto simp: step_def split: if_splits consumer.splits iter.splits)

lemma multi_iter_cases:
  obtains
    (Empty) "r_readers d = []" and "multi_iter d n = IReturn d [] (Some EOF)"
  | (Wait) c rest where "r_readers d = c # rest" and "\<not> done_c (chunks d ! c)"
      and "multi_iter d n = IBlocked"
  | (Err) c rest e where "r_readers d = c # rest" and "done_c (chunks d ! c)"
      and "chunk.err (chunks d ! c) = Some e"
  | (NilBuf) c rest where "r_readers d = c # rest" and "done_c (chunks d ! c)"
      and "chunk.err (chunks d ! c) = None" and "buf (chunks d ! c) = None"
      and "multi_iter d n = IPanic"
  | (Full) c rest where "r_readers d = c # rest" and "done_c (chunks d ! c)"
      and "chunk.err (chunks d ! c) = None" and "buf (chunks d ! c) = Some []" and "0 < n"
      and "chan_send (readAhead d) = None" and "multi_iter d n = IBlocked"
  | (Drained) c rest ra' where "r_readers d = c # rest" and "done_c (chunks d ! c)"
      and "chunk.err (chunks d ! c) = None" and "buf (chunks d ! c) = Some []" and "0 < n"
      and "chan_send (readAhead d) = Some ra'"
      and "multi_iter d n =
        IContinue (d\<lparr>chunks := (chunks d)[c := (chunks d ! c)\<lparr>buf := None\<rparr>],
                     readAhead := ra', r_readers := rest\<rparr>)"
  | (Bytes) c rest b where "r_readers d = c # rest" and "done_c (chunks d ! c)"
      and "chunk.err (chunks d ! c) = None" and "buf (chunks d ! c) = Some b"
      and "b \<noteq> [] \<or> n = 0"
      and "multi_iter d n =
        IReturn (d\<lparr>chunks := (chunks d)[c := (chunks d ! c)\<lparr>buf := Some (drop n b)\<rparr>],
                   readAhead := readAhead d, r_readers := c # rest\<rparr>) (take n b) None"
proof (cases "r_readers d")
  case Nil
  then show ?thesis using Empty by (simp add: multi_iter_def)
next
  case (Cons c rest)
  show ?thesis
  proof (cases "done_c (chunks d ! c)")
    case False
    with Cons show ?thesis using Wait by (simp add: multi_iter_def chunk_Read_def)
  next
    case dn: True
    show ?thesis
    proof (cases "chunk.err (chunks d ! c)")
      case (Some e)
      with Cons dn show ?thesis using Err by simp
    next
      case None
      show ?thesis
      proof (cases "buf (chunks d ! c)")
        case nb: None
        with Cons dn None show ?thesis using NilBuf by (simp add: multi_iter_def chunk_Read_def)
      next
        case (Some b)
        show ?thesis
        proof (cases "b \<noteq> [] \<or> n = 0")
          case True
          with Cons dn None Some show ?thesis
            using Bytes [of c rest b]
            by (auto simp: multi_iter_def chunk_Read_def Buffer_Read_def)
        next
          case False
          then have b: "b = []" and n: "0 < n" by auto
          show ?thesis
          proof (cases "chan_send (readAhead d)")
            case cs: None
            with Cons dn None Some b n show ?thesis
              using Full [of c rest] by (simp add: multi_iter_def chunk_Read_def Buffer_Read_def)
          next
            case cs: (Some ra')
            with Cons dn None Some b n show ?thesis
              using Drained [of c rest ra'] by (simp add: multi_iter_def chunk_Read_def Buffer_Read_def)
          qed
        qed
      qed
    qed
  qed
qed

subsection \<open>Lazy start\<close>

lemma started_step:
  assumes "started k d" and "step w k ev d = Some d'"
  shows "started k d'"
proof (cases ev)
  case (Call_Read n)
  with assms show ?thesis
    by (auto simp: step_def started_def once_Do_def split: if_splits consumer.splits)
next
  case Reader_Iter
  from assms(2) [unfolded Reader_Iter] show ?thesis
  proof (cases rule: Reader_Iter_step)
    case (1 n)
    with assms(1) show ?thesis by (auto simp: started_def split: if_splits)
  next
    case (2 n)
    then have "multi_iter d n = IContinue d' \<or> (\<exists>p e. multi_iter d n = IReturn d' p e)"
      by simp
    from multi_iter_shape [OF this] 2 assms(1) show ?thesis
      by (simp add: started_def split: if_splits)
  next
    case (3 n d1 p e)
    then have "multi_iter d n = IContinue d1 \<or> (\<exists>p e. multi_iter d n = IReturn d1 p e)"
      by blast
    from multi_iter_shape [OF this] 3 assms(1) show ?thesis
      by (simp add: started_def split: if_splits)
  qed
next
  case (Worker_Recv i)
  with assms show ?thesis
    by (auto simp: step_def started_def worker_at_def split: if_splits option.splits worker.splits list.splits dest: set_update_subset_insert [THEN subsetD])
next
  case (Worker_Download i)
  with assms show ?thesis
    by (auto simp: step_def started_def worker_at_def split: if_splits option.splits worker.splits outcome.splits dest: set_update_subset_insert [THEN subsetD])
next
  case (Worker_SetErr i)
  with assms show ?thesis
    by (auto simp: step_def started_def worker_at_def split: if_splits option.splits worker.splits dest: set_update_subset_insert [THEN subsetD])
next
  case (Worker_ReadAhead i)
  with assms show ?thesis
    by (auto simp: step_def started_def worker_at_def chan_recv_def split: if_splits option.splits worker.splits dest: set_update_subset_insert [THEN subsetD])
qed

lemma started_new: "started k (new_downloader k cs)"
  by (simp add: started_def new_downloader_def)

lemma started_run:
  assumes "run w k evs (new_downloader k cs) = Some d"
  shows "started k d"
proof (rule run_invariant [where P = "started k", OF _ _ assms])
  show "started k (new_downloader k cs)" by (rule started_new)
next
  fix ev d d'
  assume "started k d" and "step w k ev d = Some d'"
  then show "started k d'" by (rule started_step)
qed

lemma once_run:
  assumes "started k d0" and "run w k evs d0 = Some d"
  shows "once d \<longleftrightarrow> once d0 \<or> (\<exists>n. Call_Read n \<in> set evs)"
  using assms
proof (induction evs arbitrary: d0)
  case Nil
  then show ?case by simp
next
  case (Cons ev evs)
  then obtain d1 where d1: "step w k ev d0 = Some d1" and run: "run w k evs d1 = Some d"
    by (auto split: option.splits)
  from Cons.prems(1) d1 have "started k d1" by (rule started_step)
  from Cons.IH [OF this run] have IH: "once d \<longleftrightarrow> once d1 \<or> (\<exists>n. Call_Read n \<in> set evs)" .
  have "once d1 \<longleftrightarrow> once d0 \<or> (\<exists>n. ev = Call_Read n)"
  proof (cases ev)
    case (Call_Read n)
    with d1 Cons.prems(1) show ?thesis
      by (auto simp: step_def started_def once_Do_def split: if_splits consumer.splits)
  next
    case Reader_Iter
    from d1 [unfolded Reader_Iter] show ?thesis
    proof (cases rule: Reader_Iter_step)
      case (1 n)
      then show ?thesis using Reader_Iter by simp
    next
      case (2 n)
      then have "multi_iter d0 n = IContinue d1 \<or> (\<exists>p e. multi_iter d0 n = IReturn d1 p e)"
        by simp
      from multi_iter_shape [OF this] show ?thesis using Reader_Iter by simp
    next
      case (3 n d2 p e)
      then have "multi_iter d0 n = IContinue d2 \<or> (\<exists>p e. multi_iter d0 n = IReturn d2 p e)"
        by blast
      from multi_iter_shape [OF this] 3 show ?thesis using Reader_Iter by simp
    qed
  next
    case (Worker_Recv i)
    with d1 show ?thesis
      by (auto simp: step_def worker_at_def split: if_splits option.splits worker.splits list.splits)
  next
    case (Worker_Download i)
    with d1 show ?thesis
      by (auto simp: step_def worker_at_def split: if_splits option.splits worker.splits outcome.splits)
  next
    case (Worker_SetErr i)
    with d1 show ?thesis
      by (auto simp: step_def worker_at_def split: if_splits option.splits worker.splits)
  next
    case (Worker_ReadAhead i)
    with d1 show ?thesis
      by (auto simp: step_def worker_at_def split: if_splits option.splits worker.splits)
  qed
  with IH show ?case by auto
qed

text \<open>
  With one caller, whose \<^verbatim>\<open>d.once.Do\<close> is one action: as long as it has not called \<^verbatim>\<open>Read\<close>
  there is no worker, no request for a chunk has been issued and no chunk has left
  \<^verbatim>\<open>d.chunks\<close>; once it has called \<^verbatim>\<open>Read\<close>, however often, the workers are \<^verbatim>\<open>concurrency\<close>.
\<close>

lemma one_caller_start:
  assumes "run w k evs (new_downloader k cs) = Some d"
  shows "length (workers d) = (if (\<exists>n. Call_Read n \<in> set evs) then k else 0)
       \<and> ((\<forall>n. Call_Read n \<notin> set evs) \<longrightarrow> requests d = [] \<and> claimed d = 0)"
proof -
  from assms have st: "started k d" by (rule started_run)
  from once_run [OF started_new assms]
  have "once d \<longleftrightarrow> (\<exists>n. Call_Read n \<in> set evs)"
    by (simp add: new_downloader_def)
  with st show ?thesis
    by (auto simp: started_def claimed_def split: if_splits)
qed

subsection \<open>Lazy start with concurrent callers\<close>

text \<open>What the workers do leaves \<^verbatim>\<open>d.once\<close> and the number of workers as they are.\<close>

lemma worker_step_same:
  assumes "is_worker ev" and "step w k ev d = Some d'"
  shows "once d' = once d \<and> length (workers d') = length (workers d)"
  using assms
  by (cases ev)
    (auto simp: step_def worker_at_def
      split: if_splits option.splits worker.splits list.splits outcome.splits)

lemma once_invI:
  assumes "\<And>c. c < length (callers s) \<Longrightarrow> critical (callers s ! c) \<Longrightarrow> once_m s = Some c"
    and "\<And>h. once_m s = Some h \<Longrightarrow> h < length (callers s) \<and> critical (callers s ! h)"
    and "\<And>c. c \<in> set (callers s) \<Longrightarrow> caller_ok k (once (dl s)) c"
    and "once (dl s) \<Longrightarrow> length (workers (dl s)) = k"
    and "\<not> once (dl s) \<Longrightarrow> length (workers (dl s)) =
          (case once_m s of None \<Rightarrow> 0 | Some h \<Rightarrow> spawned k (callers s ! h))"
  shows "once_inv k s"
  unfolding once_inv_def using assms by blast

lemma once_inv_holder:
    "once_inv k s \<Longrightarrow> c < length (callers s) \<Longrightarrow> critical (callers s ! c) \<Longrightarrow> once_m s = Some c"
  and once_inv_held:
    "once_inv k s \<Longrightarrow> once_m s = Some h \<Longrightarrow> h < length (callers s) \<and> critical (callers s ! h)"
  and once_inv_ok: "once_inv k s \<Longrightarrow> c' \<in> set (callers s) \<Longrightarrow> caller_ok k (once (dl s)) c'"
  and once_inv_done: "once_inv k s \<Longrightarrow> once (dl s) \<Longrightarrow> length (workers (dl s)) = k"
  and once_inv_count: "once_inv k s \<Longrightarrow> \<not> once (dl s) \<Longrightarrow> length (workers (dl s)) =
          (case once_m s of None \<Rightarrow> 0 | Some h \<Rightarrow> spawned k (callers s ! h))"
  unfolding once_inv_def by blast+

lemma once_inv_init: "once_inv k (sys_init k cs m)"
proof (rule once_invI)
  fix c assume "c < length (callers (sys_init k cs m))"
    and "critical (callers (sys_init k cs m) ! c)"
  then show "once_m (sys_init k cs m) = Some c" by (simp add: sys_init_def)
next
  fix h assume "once_m (sys_init k cs m) = Some h"
  then show "h < length (callers (sys_init k cs m)) \<and> critical (callers (sys_init k cs m) ! h)"
    by (simp add: sys_init_def)
next
  fix c assume "c \<in> set (callers (sys_init k cs m))"
  then show "caller_ok k (once (dl (sys_init k cs m))) c" by (auto simp: sys_init_def)
next
  assume "once (dl (sys_init k cs m))"
  then show "length (workers (dl (sys_init k cs m))) = k"
    by (simp add: sys_init_def new_downloader_def)
next
  show "length (workers (dl (sys_init k cs m))) =
      (case once_m (sys_init k cs m) of None \<Rightarrow> 0
       | Some h \<Rightarrow> spawned k (callers (sys_init k cs m) ! h))"
    by (simp add: sys_init_def new_downloader_def)
qed

lemma once_inv_dl:
  assumes inv: "once_inv k s" and o: "once d' = once (dl s)"
    and l: "length (workers d') = length (workers (dl s))"
  shows "once_inv k (s\<lparr>dl := d'\<rparr>)"
proof (rule once_invI)
  fix c assume "c < length (callers (s\<lparr>dl := d'\<rparr>))" and "critical (callers (s\<lparr>dl := d'\<rparr>) ! c)"
  then have "c < length (callers s)" "critical (callers s ! c)" by simp_all
  from once_inv_holder [OF inv this] show "once_m (s\<lparr>dl := d'\<rparr>) = Some c" by simp
next
  fix h assume "once_m (s\<lparr>dl := d'\<rparr>) = Some h"
  then have "once_m s = Some h" by simp
  from once_inv_held [OF inv this]
  show "h < length (callers (s\<lparr>dl := d'\<rparr>)) \<and> critical (callers (s\<lparr>dl := d'\<rparr>) ! h)" by simp
next
  fix c assume "c \<in> set (callers (s\<lparr>dl := d'\<rparr>))"
  then have "c \<in> set (callers s)" by simp
  from once_inv_ok [OF inv this] o show "caller_ok k (once (dl (s\<lparr>dl := d'\<rparr>))) c" by simp
next
  assume "once (dl (s\<lparr>dl := d'\<rparr>))"
  with o have "once (dl s)" by simp
  from once_inv_done [OF inv this] l show "length (workers (dl (s\<lparr>dl := d'\<rparr>))) = k" by simp
next
  assume "\<not> once (dl (s\<lparr>dl := d'\<rparr>))"
  with o have "\<not> once (dl s)" by simp
  from once_inv_count [OF inv this] l
  show "length (workers (dl (s\<lparr>dl := d'\<rparr>))) =
      (case once_m (s\<lparr>dl := d'\<rparr>) of None \<Rightarrow> 0
       | Some h \<Rightarrow> spawned k (callers (s\<lparr>dl := d'\<rparr>) ! h))"
    by (simp split: option.splits)
qed

lemma set_update_cases:
  assumes "y \<in> set (xs[c := x])"
  shows "y = x \<or> (\<exists>c' < length xs. c' \<noteq> c \<and> y = xs ! c')"
proof -
  from assms obtain i where i: "i < length xs" and y: "y = xs[c := x] ! i"
    by (auto simp: in_set_conv_nth)
  show ?thesis
  proof (cases "i = c")
    case True
    with i y show ?thesis by simp
  next
    case False
    with i y show ?thesis by auto
  qed
qed

text \<open>A caller outside the critical section moves to another place outside it.\<close>

lemma once_inv_move:
  assumes inv: "once_inv k s" and c: "c < length (callers s)"
    and nc: "\<not> critical (callers s ! c)" and nx: "\<not> critical x"
    and ok: "caller_ok k (once (dl s)) x"
  shows "once_inv k (move s c x)"
proof (rule once_invI)
  fix c' assume c': "c' < length (callers (move s c x))"
    and cr: "critical (callers (move s c x) ! c')"
  from cr nx c' have "c' \<noteq> c" by (auto simp: move_def)
  with c' cr have "c' < length (callers s)" "critical (callers s ! c')"
    by (simp_all add: move_def)
  from once_inv_holder [OF inv this] show "once_m (move s c x) = Some c'"
    by (simp add: move_def)
next
  fix h assume "once_m (move s c x) = Some h"
  then have h: "once_m s = Some h" by (simp add: move_def)
  from once_inv_held [OF inv h] nc have "h \<noteq> c" "h < length (callers s)"
    "critical (callers s ! h)" by auto
  then show "h < length (callers (move s c x)) \<and> critical (callers (move s c x) ! h)"
    by (simp add: move_def)
next
  fix c' assume "c' \<in> set (callers (move s c x))"
  then have "c' = x \<or> c' \<in> set (callers s)"
    by (auto simp: move_def dest: in_set_update)
  with ok once_inv_ok [OF inv] show "caller_ok k (once (dl (move s c x))) c'"
    by (auto simp: move_def)
next
  assume "once (dl (move s c x))"
  with once_inv_done [OF inv] show "length (workers (dl (move s c x))) = k"
    by (simp add: move_def)
next
  assume "\<not> once (dl (move s c x))"
  then have no: "\<not> once (dl s)" by (simp add: move_def)
  show "length (workers (dl (move s c x))) =
      (case once_m (move s c x) of None \<Rightarrow> 0
       | Some h \<Rightarrow> spawned k (callers (move s c x) ! h))"
  proof (cases "once_m s")
    case None
    with once_inv_count [OF inv no] show ?thesis by (simp add: move_def)
  next
    case (Some h)
    from once_inv_held [OF inv Some] nc have "h \<noteq> c" by auto
    with once_inv_count [OF inv no] Some show ?thesis by (simp add: move_def)
  qed
qed

text \<open>The holder of the mutex moves to another place inside the critical section.\<close>

lemma once_inv_inside:
  assumes inv: "once_inv k s" and c: "c < length (callers s)"
    and cr: "critical (callers s ! c)" and cx: "critical x"
    and ok: "caller_ok k dn x"
    and others: "\<And>y. \<not> critical y \<Longrightarrow> caller_ok k (once (dl s)) y \<Longrightarrow> caller_ok k dn y"
    and dn: "once d' = dn" and k: "dn \<Longrightarrow> length (workers d') = k"
    and cnt: "\<not> dn \<Longrightarrow> length (workers d') = spawned k x"
  shows "once_inv k ((move s c x)\<lparr>dl := d'\<rparr>)"
proof (rule once_invI)
  let ?s = "(move s c x)\<lparr>dl := d'\<rparr>"
  from once_inv_holder [OF inv c cr] have m: "once_m s = Some c" .
  {
    fix c' assume c': "c' < length (callers ?s)" and cr': "critical (callers ?s ! c')"
    show "once_m ?s = Some c'"
    proof (cases "c' = c")
      case True
      with m show ?thesis by (simp add: move_def)
    next
      case False
      with c' cr' have "c' < length (callers s)" "critical (callers s ! c')"
        by (simp_all add: move_def)
      from once_inv_holder [OF inv this] m False show ?thesis by simp
    qed
  next
    fix h assume "once_m ?s = Some h"
    with m have "h = c" by (simp add: move_def)
    with c cx show "h < length (callers ?s) \<and> critical (callers ?s ! h)"
      by (simp add: move_def)
  next
    fix y assume "y \<in> set (callers ?s)"
    then have "y \<in> set ((callers s)[c := x])" by (simp add: move_def)
    from set_update_cases [OF this]
    consider "y = x" | c' where "c' < length (callers s)" "c' \<noteq> c" "y = callers s ! c'"
      by blast
    then show "caller_ok k (once (dl ?s)) y"
    proof cases
      case 1
      with ok dn show ?thesis by (simp add: move_def)
    next
      case 2
      have "\<not> critical y"
      proof
        assume "critical y"
        with 2 once_inv_holder [OF inv 2(1)] m show False by simp
      qed
      moreover from 2 have "y \<in> set (callers s)" by simp
      ultimately show ?thesis
        using others once_inv_ok [OF inv] dn by (simp add: move_def)
    qed
  next
    assume "once (dl ?s)"
    with dn k show "length (workers (dl ?s)) = k" by (simp add: move_def)
  next
    assume "\<not> once (dl ?s)"
    with dn cnt m c show "length (workers (dl ?s)) =
        (case once_m ?s of None \<Rightarrow> 0 | Some h \<Rightarrow> spawned k (callers ?s ! h))"
      by (simp add: move_def)
  }
qed

lemma once_inv_lock:
  assumes inv: "once_inv k s" and c: "c < length (callers s)"
    and at: "callers s ! c = AtLock n" and free: "once_m s = None"
  shows "once_inv k ((move s c (Locked n))\<lparr>once_m := Some c\<rparr>)"
proof (rule once_invI)
  let ?s = "(move s c (Locked n))\<lparr>once_m := Some c\<rparr>"
  {
    fix c' assume c': "c' < length (callers ?s)" and cr: "critical (callers ?s ! c')"
    show "once_m ?s = Some c'"
    proof (cases "c' = c")
      case True
      then show ?thesis by simp
    next
      case False
      with c' cr have "c' < length (callers s)" "critical (callers s ! c')"
        by (simp_all add: move_def)
      from once_inv_holder [OF inv this] free show ?thesis by simp
    qed
  next
    fix h assume "once_m ?s = Some h"
    then have "h = c" by simp
    with c show "h < length (callers ?s) \<and> critical (callers ?s ! h)"
      by (simp add: move_def)
  next
    fix y assume "y \<in> set (callers ?s)"
    then have "y = Locked n \<or> y \<in> set (callers s)"
      by (auto simp: move_def dest: in_set_update)
    with once_inv_ok [OF inv] show "caller_ok k (once (dl ?s)) y"
      by (auto simp: move_def)
  next
    assume "once (dl ?s)"
    with once_inv_done [OF inv] show "length (workers (dl ?s)) = k" by (simp add: move_def)
  next
    assume "\<not> once (dl ?s)"
    then have "\<not> once (dl s)" by (simp add: move_def)
    from once_inv_count [OF inv this] free c
    show "length (workers (dl ?s)) =
        (case once_m ?s of None \<Rightarrow> 0 | Some h \<Rightarrow> spawned k (callers ?s ! h))"
      by (simp add: move_def)
  }
qed

lemma once_inv_unlock:
  assumes inv: "once_inv k s" and c: "c < length (callers s)"
    and at: "callers s ! c = Unlocking n"
  shows "once_inv k ((move s c (Reading n))\<lparr>once_m := None\<rparr>)"
proof (rule once_invI)
  let ?s = "(move s c (Reading n))\<lparr>once_m := None\<rparr>"
  from c at have "Unlocking n \<in> set (callers s)" by (auto simp: in_set_conv_nth)
  from once_inv_ok [OF inv this] have dn: "once (dl s)" by simp
  from once_inv_holder [OF inv c] at have m: "once_m s = Some c" by simp
  {
    fix c' assume c': "c' < length (callers ?s)" and cr: "critical (callers ?s ! c')"
    from cr c' have ne: "c' \<noteq> c" by (auto simp: move_def)
    with c' cr have "c' < length (callers s)" "critical (callers s ! c')"
      by (simp_all add: move_def)
    from once_inv_holder [OF inv this] m ne show "once_m ?s = Some c'" by simp
  next
    fix h assume "once_m ?s = Some h"
    then show "h < length (callers ?s) \<and> critical (callers ?s ! h)" by simp
  next
    fix y assume "y \<in> set (callers ?s)"
    then have "y = Reading n \<or> y \<in> set (callers s)"
      by (auto simp: move_def dest: in_set_update)
    with once_inv_ok [OF inv] dn show "caller_ok k (once (dl ?s)) y"
      by (auto simp: move_def)
  next
    assume "once (dl ?s)"
    with once_inv_done [OF inv] show "length (workers (dl ?s)) = k" by (simp add: move_def)
  next
    assume "\<not> once (dl ?s)"
    with dn show "length (workers (dl ?s)) =
        (case once_m ?s of None \<Rightarrow> 0 | Some h \<Rightarrow> spawned k (callers ?s ! h))"
      by (simp add: move_def)
  }
qed

lemma move_dl_same: "(move s c x)\<lparr>dl := dl s\<rparr> = move s c x"
  by (simp add: move_def)

lemma caller_atD: "caller_at s c = Some x \<Longrightarrow> c < length (callers s) \<and> callers s ! c = x"
  by (auto simp: caller_at_def split: if_splits)

lemma caller_ok_at:
  assumes "once_inv k s" and "caller_at s c = Some x"
  shows "caller_ok k (once (dl s)) x"
proof -
  from caller_atD [OF assms(2)] have "x \<in> set (callers s)" by (auto simp: in_set_conv_nth)
  with assms(1) show ?thesis by (rule once_inv_ok)
qed

lemma holder_count:
  assumes "once_inv k s" and "caller_at s c = Some x" and "critical x" and "\<not> once (dl s)"
  shows "length (workers (dl s)) = spawned k x"
proof -
  from caller_atD [OF assms(2)] have c: "c < length (callers s)" "callers s ! c = x" by auto
  with assms(3) have "critical (callers s ! c)" by simp
  from once_inv_holder [OF assms(1) c(1) this] once_inv_count [OF assms(1,4)] c(2)
  show ?thesis by simp
qed

lemma once_inv_step:
  assumes inv: "once_inv k s" and st: "sys_step w k ev s = Some s'"
  shows "once_inv k s'"
proof (cases ev)
  case (Enter c n)
  with st obtain x where at: "caller_at s c = Some x" and x: "x = Idle"
    by (auto simp: sys_step_def split: if_splits option.splits caller.splits)
  from caller_atD [OF at] x have c: "c < length (callers s)" "callers s ! c = Idle" by auto
  from st Enter at x have "s' = s\<lparr>dl := (dl s)\<lparr>returns := returns (dl s) @ [([], downloader.err (dl s))]\<rparr>\<rparr>
      \<or> s' = move s c (AtOnce n)"
    by (auto simp: sys_step_def split: if_splits)
  then show ?thesis
  proof
    assume "s' = s\<lparr>dl := (dl s)\<lparr>returns := returns (dl s) @ [([], downloader.err (dl s))]\<rparr>\<rparr>"
    then show ?thesis using inv by (simp add: once_inv_dl)
  next
    assume "s' = move s c (AtOnce n)"
    then show ?thesis using inv c by (simp add: once_inv_move)
  qed
next
  case (Once_Load c)
  with st obtain n where at: "caller_at s c = Some (AtOnce n)"
    by (auto simp: sys_step_def split: if_splits option.splits caller.splits)
  from caller_atD [OF at] have c: "c < length (callers s)" "callers s ! c = AtOnce n" by auto
  from st Once_Load at have "s' = (if once (dl s) then move s c (Reading n) else move s c (AtLock n))"
    by (auto simp: sys_step_def split: if_splits)
  then show ?thesis using inv c by (simp add: once_inv_move)
next
  case (Once_Lock c)
  with st obtain n where at: "caller_at s c = Some (AtLock n)"
    by (auto simp: sys_step_def split: if_splits option.splits caller.splits)
  from caller_atD [OF at] have c: "c < length (callers s)" "callers s ! c = AtLock n" by auto
  from st Once_Lock at have free: "once_m s = None"
    and s': "s' = (move s c (Locked n))\<lparr>once_m := Some c\<rparr>"
    by (auto simp: sys_step_def split: if_splits option.splits)
  from once_inv_lock [OF inv c free] s' show ?thesis by simp
next
  case (Once_Test c)
  with st obtain n where at: "caller_at s c = Some (Locked n)"
    by (auto simp: sys_step_def split: if_splits option.splits caller.splits)
  from caller_atD [OF at] have c: "c < length (callers s)" "callers s ! c = Locked n" by auto
  then have cr: "critical (callers s ! c)" by simp
  from st Once_Test at
  have s': "s' = move s c (if once (dl s) then Unlocking n else Spawning 0 n)"
    by (auto simp: sys_step_def split: if_splits)
  have "once_inv k ((move s c (if once (dl s) then Unlocking n else Spawning 0 n))\<lparr>dl := dl s\<rparr>)"
  proof (rule once_inv_inside [OF inv c(1) cr, where dn = "once (dl s)"])
    show "\<not> once (dl s) \<Longrightarrow> length (workers (dl s)) =
        spawned k (if once (dl s) then Unlocking n else Spawning 0 n)"
      using holder_count [OF inv at] by simp
  qed (simp_all add: once_inv_done [OF inv])
  with s' show ?thesis by (simp add: move_dl_same)
next
  case (Once_Go c)
  with st obtain i n where at: "caller_at s c = Some (Spawning i n)"
    by (auto simp: sys_step_def split: if_splits option.splits caller.splits)
  from caller_atD [OF at] have c: "c < length (callers s)" "callers s ! c = Spawning i n" by auto
  then have cr: "critical (callers s ! c)" by simp
  from st Once_Go at have i: "i < k"
    and s': "s' = (move s c (Spawning (i + 1) n))\<lparr>dl := (dl s)\<lparr>workers := workers (dl s) @ [AtRange]\<rparr>\<rparr>"
    by (auto simp: sys_step_def split: if_splits)
  from caller_ok_at [OF inv at] have no: "\<not> once (dl s)" by simp
  from holder_count [OF inv at _ no] have len: "length (workers (dl s)) = i" by simp
  have "once_inv k ((move s c (Spawning (i + 1) n))\<lparr>dl := (dl s)\<lparr>workers := workers (dl s) @ [AtRange]\<rparr>\<rparr>)"
    by (rule once_inv_inside [OF inv c(1) cr, where dn = False]) (use i no len in simp_all)
  with s' show ?thesis by simp
next
  case (Once_Return c)
  with st obtain i n where at: "caller_at s c = Some (Spawning i n)"
    by (auto simp: sys_step_def split: if_splits option.splits caller.splits)
  from caller_atD [OF at] have c: "c < length (callers s)" "callers s ! c = Spawning i n" by auto
  then have cr: "critical (callers s ! c)" by simp
  from st Once_Return at have i: "\<not> i < k" and s': "s' = move s c (Storing n)"
    by (auto simp: sys_step_def split: if_splits)
  from caller_ok_at [OF inv at] have no: "\<not> once (dl s)" and ik: "i \<le> k" by simp_all
  from holder_count [OF inv at _ no] have len: "length (workers (dl s)) = i" by simp
  have "once_inv k ((move s c (Storing n))\<lparr>dl := dl s\<rparr>)"
    by (rule once_inv_inside [OF inv c(1) cr, where dn = False]) (use i ik no len in simp_all)
  with s' show ?thesis by (simp add: move_dl_same)
next
  case (Once_Store c)
  with st obtain n where at: "caller_at s c = Some (Storing n)"
    by (auto simp: sys_step_def split: if_splits option.splits caller.splits)
  from caller_atD [OF at] have c: "c < length (callers s)" "callers s ! c = Storing n" by auto
  then have cr: "critical (callers s ! c)" by simp
  from st Once_Store at
  have s': "s' = (move s c (Unlocking n))\<lparr>dl := (dl s)\<lparr>once := True\<rparr>\<rparr>"
    by (auto simp: sys_step_def split: if_splits)
  from caller_ok_at [OF inv at] have no: "\<not> once (dl s)" by simp
  from holder_count [OF inv at _ no] have len: "length (workers (dl s)) = k" by simp
  have "once_inv k ((move s c (Unlocking n))\<lparr>dl := (dl s)\<lparr>once := True\<rparr>\<rparr>)"
  proof (rule once_inv_inside [OF inv c(1) cr, where dn = True])
    fix y assume "\<not> critical y" and "caller_ok k (once (dl s)) y"
    with no show "caller_ok k True y" by (cases y) simp_all
  qed (use len in simp_all)
  with s' show ?thesis by simp
next
  case (Once_Unlock c)
  with st obtain n where at: "caller_at s c = Some (Unlocking n)"
    by (auto simp: sys_step_def split: if_splits option.splits caller.splits)
  from caller_atD [OF at] have c: "c < length (callers s)" "callers s ! c = Unlocking n" by auto
  from st Once_Unlock at have s': "s' = (move s c (Reading n))\<lparr>once_m := None\<rparr>"
    by (auto simp: sys_step_def split: if_splits)
  from once_inv_unlock [OF inv c] s' show ?thesis by simp
next
  case (Round c)
  with st obtain n where at: "caller_at s c = Some (Reading n)"
    by (auto simp: sys_step_def split: if_splits option.splits caller.splits)
  from caller_atD [OF at] have c: "c < length (callers s)" "callers s ! c = Reading n" by auto
  from st Round at consider "s' = s\<lparr>dl := (dl s)\<lparr>panicked := True\<rparr>\<rparr>"
    | d' where "multi_iter (dl s) n = IContinue d'" "s' = s\<lparr>dl := d'\<rparr>"
    | d' p e where "multi_iter (dl s) n = IReturn d' p e"
        "s' = (move s c Idle)\<lparr>dl := d'\<lparr>returns := returns d' @ [(p, e)]\<rparr>\<rparr>"
    by (auto simp: sys_step_def split: if_splits iter.splits)
  then show ?thesis
  proof cases
    case 1
    then show ?thesis using inv by (simp add: once_inv_dl)
  next
    case 2
    then have "multi_iter (dl s) n = IContinue d' \<or> (\<exists>p e. multi_iter (dl s) n = IReturn d' p e)"
      by simp
    from multi_iter_shape [OF this] 2 inv show ?thesis by (simp add: once_inv_dl)
  next
    case 3
    then have "multi_iter (dl s) n = IContinue d' \<or> (\<exists>p e. multi_iter (dl s) n = IReturn d' p e)"
      by blast
    from multi_iter_shape [OF this]
    have same: "once d' = once (dl s)" "length (workers d') = length (workers (dl s))" by simp_all
    from inv c have "once_inv k (move s c Idle)" by (simp add: once_inv_move)
    then have "once_inv k ((move s c Idle)\<lparr>dl := d'\<lparr>returns := returns d' @ [(p, e)]\<rparr>\<rparr>)"
      by (rule once_inv_dl) (simp_all add: same move_def)
    with 3 show ?thesis by simp
  qed
next
  case (Worker e)
  with st obtain d' where w: "is_worker e" and d': "step w k e (dl s) = Some d'"
    and s': "s' = s\<lparr>dl := d'\<rparr>"
    by (auto simp: sys_step_def split: if_splits option.splits)
  from worker_step_same [OF w d'] inv s' show ?thesis by (simp add: once_inv_dl)
qed

text \<open>The steps of the system, case by case.\<close>

lemma sys_step_cases [consumes 1, case_names Refused Enter Fast Slow Lock Test_Done Test_First
    Go Return Store Unlock Panic Continue Result Worker]:
  assumes "sys_step w k ev s = Some s'"
  obtains
    (Refused) c n where "ev = Enter c n" "caller_at s c = Some Idle"
      "downloader.err (dl s) \<noteq> None"
      "s' = s\<lparr>dl := (dl s)\<lparr>returns := returns (dl s) @ [([], downloader.err (dl s))]\<rparr>\<rparr>"
  | (Enter) c n where "ev = Enter c n" "caller_at s c = Some Idle"
      "downloader.err (dl s) = None" "s' = move s c (AtOnce n)"
  | (Fast) c n where "ev = Once_Load c" "caller_at s c = Some (AtOnce n)" "once (dl s)"
      "s' = move s c (Reading n)"
  | (Slow) c n where "ev = Once_Load c" "caller_at s c = Some (AtOnce n)" "\<not> once (dl s)"
      "s' = move s c (AtLock n)"
  | (Lock) c n where "ev = Once_Lock c" "caller_at s c = Some (AtLock n)" "once_m s = None"
      "s' = (move s c (Locked n))\<lparr>once_m := Some c\<rparr>"
  | (Test_Done) c n where "ev = Once_Test c" "caller_at s c = Some (Locked n)" "once (dl s)"
      "s' = move s c (Unlocking n)"
  | (Test_First) c n where "ev = Once_Test c" "caller_at s c = Some (Locked n)"
      "\<not> once (dl s)" "s' = move s c (Spawning 0 n)"
  | (Go) c i n where "ev = Once_Go c" "caller_at s c = Some (Spawning i n)" "i < k"
      "s' = (move s c (Spawning (i + 1) n))\<lparr>dl := (dl s)\<lparr>workers := workers (dl s) @ [AtRange]\<rparr>\<rparr>"
  | (Return) c i n where "ev = Once_Return c" "caller_at s c = Some (Spawning i n)" "\<not> i < k"
      "s' = move s c (Storing n)"
  | (Store) c n where "ev = Once_Store c" "caller_at s c = Some (Storing n)"
      "s' = (move s c (Unlocking n))\<lparr>dl := (dl s)\<lparr>once := True\<rparr>\<rparr>"
  | (Unlock) c n where "ev = Once_Unlock c" "caller_at s c = Some (Unlocking n)"
      "s' = (move s c (Reading n))\<lparr>once_m := None\<rparr>"
  | (Panic) c n where "ev = Round c" "caller_at s c = Some (Reading n)"
      "s' = s\<lparr>dl := (dl s)\<lparr>panicked := True\<rparr>\<rparr>"
  | (Continue) c n d' where "ev = Round c" "caller_at s c = Some (Reading n)"
      "multi_iter (dl s) n = IContinue d'" "s' = s\<lparr>dl := d'\<rparr>"
  | (Result) c n d' p e where "ev = Round c" "caller_at s c = Some (Reading n)"
      "multi_iter (dl s) n = IReturn d' p e"
      "s' = (move s c Idle)\<lparr>dl := d'\<lparr>returns := returns d' @ [(p, e)]\<rparr>\<rparr>"
  | (Worker) e d' where "ev = Worker e" "is_worker e" "step w k e (dl s) = Some d'"
      "s' = s\<lparr>dl := d'\<rparr>"
proof (cases ev)
  case (Enter c n)
  with assms that(1,2) show ?thesis
    by (auto simp: sys_step_def split: if_splits option.splits caller.splits)
next
  case (Once_Load c)
  with assms that(3,4) show ?thesis
    by (auto simp: sys_step_def split: if_splits option.splits caller.splits)
next
  case (Once_Lock c)
  with assms that(5) show ?thesis
    by (auto simp: sys_step_def split: if_splits option.splits caller.splits)
next
  case (Once_Test c)
  with assms that(6,7) show ?thesis
    by (auto simp: sys_step_def split: if_splits option.splits caller.splits)
next
  case (Once_Go c)
  with assms that(8) show ?thesis
    by (auto simp: sys_step_def split: if_splits option.splits caller.splits)
next
  case (Once_Return c)
  with assms that(9) show ?thesis
    by (auto simp: sys_step_def split: if_splits option.splits caller.splits)
next
  case (Once_Store c)
  with assms that(10) show ?thesis
    by (auto simp: sys_step_def split: if_splits option.splits caller.splits)
next
  case (Once_Unlock c)
  with assms that(11) show ?thesis
    by (auto simp: sys_step_def split: if_splits option.splits caller.splits)
next
  case (Round c)
  with assms that(12,13,14) show ?thesis
    by (auto simp: sys_step_def split: if_splits option.splits caller.splits iter.splits)
next
  case (Worker e)
  with assms show ?thesis
    by (auto simp: sys_step_def intro: that(15) split: if_splits option.splits)
qed

lemma sys_run_append:
  "sys_run w k (evs @ evs') s =
     (case sys_run w k evs s of None \<Rightarrow> None | Some s' \<Rightarrow> sys_run w k evs' s')"
  by (induction evs arbitrary: s) (simp_all split: option.splits)

lemma sys_run_snoc:
  assumes "sys_run w k (evs @ [ev]) s = Some s'"
  obtains s1 where "sys_run w k evs s = Some s1" and "sys_step w k ev s1 = Some s'"
  using assms by (auto simp: sys_run_append split: option.splits)

lemma once_inv_run:
  assumes "sys_run w k evs (sys_init k cs m) = Some s"
  shows "once_inv k s"
  using assms
proof (induction evs arbitrary: s rule: rev_induct)
  case Nil
  then have "s = sys_init k cs m" by simp
  then show ?case by (simp only: once_inv_init)
next
  case (snoc ev evs)
  from snoc.prems obtain s1 where "sys_run w k evs (sys_init k cs m) = Some s1"
    and "sys_step w k ev s1 = Some s" by (rule sys_run_snoc)
  with snoc.IH show ?case by (blast intro: once_inv_step)
qed

lemma sys_step_once:
  assumes "sys_step w k ev s = Some s'" and "once (dl s)"
  shows "once (dl s')"
  using assms
proof (cases rule: sys_step_cases)
  case (Continue c n d')
  then have "multi_iter (dl s) n = IContinue d' \<or> (\<exists>p e. multi_iter (dl s) n = IReturn d' p e)"
    by simp
  from multi_iter_shape [OF this] Continue assms(2) show ?thesis by simp
next
  case (Result c n d' p e)
  then have "multi_iter (dl s) n = IContinue d' \<or> (\<exists>p e. multi_iter (dl s) n = IReturn d' p e)"
    by blast
  from multi_iter_shape [OF this] Result assms(2) show ?thesis by (simp add: move_def)
next
  case (Worker e d')
  from worker_step_same [OF Worker(2,3)] Worker(4) assms(2) show ?thesis by simp
qed (use assms(2) in \<open>simp_all add: move_def\<close>)

lemma sys_step_workers:
  assumes "sys_step w k ev s = Some s'"
  shows "length (workers (dl s')) = length (workers (dl s)) + (if is_go ev then 1 else 0)"
  using assms
proof (cases rule: sys_step_cases)
  case (Continue c n d')
  then have "multi_iter (dl s) n = IContinue d' \<or> (\<exists>p e. multi_iter (dl s) n = IReturn d' p e)"
    by simp
  from multi_iter_shape [OF this] Continue show ?thesis by simp
next
  case (Result c n d' p e)
  then have "multi_iter (dl s) n = IContinue d' \<or> (\<exists>p e. multi_iter (dl s) n = IReturn d' p e)"
    by blast
  from multi_iter_shape [OF this] Result show ?thesis by (simp add: move_def)
next
  case (Worker e d')
  from worker_step_same [OF Worker(2,3)] Worker(1,4) show ?thesis by simp
qed (simp_all add: move_def)

lemma sys_step_err:
  assumes "sys_step w k ev s = Some s'"
  shows "downloader.err (dl s') = downloader.err (dl s) \<or> workers (dl s) \<noteq> []"
  using assms
proof (cases rule: sys_step_cases)
  case (Continue c n d')
  then have "multi_iter (dl s) n = IContinue d' \<or> (\<exists>p e. multi_iter (dl s) n = IReturn d' p e)"
    by simp
  from multi_iter_shape [OF this] Continue show ?thesis by simp
next
  case (Result c n d' p e)
  then have "multi_iter (dl s) n = IContinue d' \<or> (\<exists>p e. multi_iter (dl s) n = IReturn d' p e)"
    by blast
  from multi_iter_shape [OF this] Result show ?thesis by (simp add: move_def)
next
  case (Worker e d')
  from Worker(2,3) have "downloader.err d' = downloader.err (dl s) \<or> workers (dl s) \<noteq> []"
    by (cases e)
      (auto simp: step_def worker_at_def
        split: if_splits option.splits worker.splits list.splits outcome.splits)
  with Worker(4) show ?thesis by simp
qed (simp_all add: move_def)

text \<open>Who holds the mutex before \<^verbatim>\<open>o.done\<close> is stored holds it until then.\<close>

lemma holder_stable:
  assumes inv: "once_inv k s" and st: "sys_step w k ev s = Some s'"
    and h: "once (dl s) \<or> once_m s = Some c"
  shows "once (dl s') \<or> once_m s' = Some c"
proof (cases "once (dl s)")
  case True
  with st show ?thesis by (blast intro: sys_step_once)
next
  case False
  with h have m: "once_m s = Some c" by simp
  from st show ?thesis
  proof (cases rule: sys_step_cases)
    case (Lock c' n)
    with m show ?thesis by simp
  next
    case (Unlock c' n)
    from caller_ok_at [OF inv Unlock(2)] False show ?thesis by simp
  qed (use m in \<open>simp_all add: move_def\<close>)
qed

text \<open>A caller on its way through \<^verbatim>\<open>d.once.Do\<close> leaves it only with \<^verbatim>\<open>o.done\<close> stored.\<close>

lemma live_move:
  assumes "live s" and "c < length (callers s)" and "starting x \<or> once (dl s)"
  shows "live (move s c x)"
proof (cases "once (dl s)")
  case True
  then show ?thesis by (simp add: live_def move_def)
next
  case False
  with assms(3) have x: "starting x" by simp
  from assms(2) have "x \<in> set ((callers s)[c := x])" by (rule set_update_memI)
  with x show ?thesis by (auto simp: live_def move_def)
qed

lemma live_stable:
  assumes inv: "once_inv k s" and st: "sys_step w k ev s = Some s'" and l: "live s"
  shows "live s'"
proof (cases "once (dl s)")
  case True
  with st have "once (dl s')" by (rule sys_step_once)
  then show ?thesis by (simp add: live_def)
next
  case False
  from st show ?thesis
  proof (cases rule: sys_step_cases)
    case (Refused c n)
    with l show ?thesis by (simp add: live_def)
  next
    case (Enter c n)
    with l caller_atD [OF Enter(2)] show ?thesis by (simp add: live_move)
  next
    case (Fast c n)
    with False show ?thesis by simp
  next
    case (Slow c n)
    with l caller_atD [OF Slow(2)] show ?thesis by (simp add: live_move)
  next
    case (Lock c n)
    from l caller_atD [OF Lock(2)] have "live (move s c (Locked n))" by (simp add: live_move)
    with Lock show ?thesis by (simp add: live_def)
  next
    case (Test_Done c n)
    with False show ?thesis by simp
  next
    case (Test_First c n)
    with l caller_atD [OF Test_First(2)] show ?thesis by (simp add: live_move)
  next
    case (Go c i n)
    from l caller_atD [OF Go(2)] have "live (move s c (Spawning (i + 1) n))"
      by (simp add: live_move)
    with Go show ?thesis by (simp add: live_def move_def)
  next
    case (Return c i n)
    with l caller_atD [OF Return(2)] show ?thesis by (simp add: live_move)
  next
    case (Store c n)
    then show ?thesis by (simp add: live_def)
  next
    case (Unlock c n)
    from caller_ok_at [OF inv Unlock(2)] False show ?thesis by simp
  next
    case (Panic c n)
    with l show ?thesis by (simp add: live_def)
  next
    case (Continue c n d')
    then have "multi_iter (dl s) n = IContinue d' \<or> (\<exists>p e. multi_iter (dl s) n = IReturn d' p e)"
      by simp
    from multi_iter_shape [OF this] Continue l show ?thesis by (simp add: live_def)
  next
    case (Result c n d' p e)
    from caller_ok_at [OF inv Result(2)] False show ?thesis by simp
  next
    case (Worker e d')
    from worker_step_same [OF Worker(2,3)] Worker(4) l show ?thesis by (simp add: live_def)
  qed
qed

lemma workers_live:
  assumes inv: "once_inv k s" and "workers (dl s) \<noteq> []"
  shows "live s"
proof (cases "once (dl s)")
  case True
  then show ?thesis by (simp add: live_def)
next
  case False
  from once_inv_count [OF inv False] assms(2)
  obtain h where h: "once_m s = Some h" by (cases "once_m s") simp_all
  from once_inv_held [OF inv h] have "h < length (callers s)" "critical (callers s ! h)"
    by simp_all
  then have "callers s ! h \<in> set (callers s)" "starting (callers s ! h)"
    by (simp, cases "callers s ! h") simp_all
  then show ?thesis by (auto simp: live_def)
qed

text \<open>Before the first call of \<^verbatim>\<open>Read\<close> nothing can happen.\<close>

lemma quiet_step:
  assumes "\<forall>c \<in> set (callers s). c = Idle" and "workers (dl s) = []" and "\<not> is_enter ev"
  shows "sys_step w k ev s = None"
proof (cases "sys_step w k ev s")
  case None
  then show ?thesis .
next
  case (Some s')
  have idle: "caller_at s c = Some x \<Longrightarrow> x = Idle" for c x
    using assms(1) by (auto simp: caller_at_def split: if_splits)
  from Some show ?thesis
  proof (cases rule: sys_step_cases)
    case (Worker e d')
    with assms(2) show ?thesis
      by (cases e) (auto simp: step_def worker_at_def split: if_splits)
  qed (use assms(3) in \<open>auto dest: idle\<close>)
qed

lemma quiet_run:
  assumes "sys_run w k evs (sys_init k cs m) = Some s" and "\<forall>ev \<in> set evs. \<not> is_enter ev"
  shows "evs = [] \<and> s = sys_init k cs m"
proof (cases evs)
  case Nil
  with assms(1) show ?thesis by simp
next
  case (Cons ev evs')
  with assms(2) have "\<not> is_enter ev" by simp
  then have "sys_step w k ev (sys_init k cs m) = None"
    by (intro quiet_step) (simp_all add: sys_init_def new_downloader_def)
  with assms(1) Cons show ?thesis by simp
qed

text \<open>The history of a run.\<close>

lemma go_history:
  assumes "sys_run w k evs (sys_init k cs m) = Some s"
  shows "length (workers (dl s)) = length (filter is_go evs)
       \<and> (\<forall>c. Once_Go c \<in> set evs \<longrightarrow> once (dl s) \<or> once_m s = Some c)
       \<and> (\<forall>c c'. Once_Go c \<in> set evs \<longrightarrow> Once_Go c' \<in> set evs \<longrightarrow> c' = c)
       \<and> (((\<exists>ev \<in> set evs. is_enter ev) \<or> downloader.err (dl s) \<noteq> None) \<longrightarrow> live s)"
  using assms
proof (induction evs arbitrary: s rule: rev_induct)
  case Nil
  then have "s = sys_init k cs m" by simp
  then show ?case by (simp add: sys_init_def new_downloader_def)
next
  case (snoc ev evs)
  from snoc.prems obtain s1 where run: "sys_run w k evs (sys_init k cs m) = Some s1"
    and st: "sys_step w k ev s1 = Some s" by (rule sys_run_snoc)
  from run have inv: "once_inv k s1" by (rule once_inv_run)
  from inv st have inv': "once_inv k s" by (rule once_inv_step)
  from snoc.IH [OF run]
  have len: "length (workers (dl s1)) = length (filter is_go evs)"
    and held: "\<And>c. Once_Go c \<in> set evs \<Longrightarrow> once (dl s1) \<or> once_m s1 = Some c"
    and one: "\<And>c c'. Once_Go c \<in> set evs \<Longrightarrow> Once_Go c' \<in> set evs \<Longrightarrow> c' = c"
    and lv: "(\<exists>ev \<in> set evs. is_enter ev) \<or> downloader.err (dl s1) \<noteq> None \<Longrightarrow> live s1"
    by blast+
  have now: "once_m s1 = Some c \<and> \<not> once (dl s1)" if "ev = Once_Go c" for c
  proof -
    from st that obtain i n where at: "caller_at s1 c = Some (Spawning i n)"
      by (cases rule: sys_step_cases) auto
    from caller_atD [OF at] have "c < length (callers s1)" "critical (callers s1 ! c)"
      by simp_all
    from once_inv_holder [OF inv this] caller_ok_at [OF inv at] show ?thesis by simp
  qed
  have 1: "length (workers (dl s)) = length (filter is_go (evs @ [ev]))"
    using sys_step_workers [OF st] len by simp
  have 2: "once (dl s) \<or> once_m s = Some c" if "Once_Go c \<in> set (evs @ [ev])" for c
  proof (cases "Once_Go c \<in> set evs")
    case True
    from holder_stable [OF inv st held [OF True]] show ?thesis .
  next
    case False
    with that have "ev = Once_Go c" by simp
    from now [OF this] have "once (dl s1) \<or> once_m s1 = Some c" by simp
    from holder_stable [OF inv st this] show ?thesis .
  qed
  have 3: "c' = c" if "Once_Go c \<in> set (evs @ [ev])" and "Once_Go c' \<in> set (evs @ [ev])"
    for c c'
  proof -
    have *: "a = b" if "Once_Go a \<in> set evs" and "ev = Once_Go b" for a b
      using held [OF that(1)] now [OF that(2)] by simp
    from that consider "Once_Go c \<in> set evs" "Once_Go c' \<in> set evs"
      | "Once_Go c \<in> set evs" "ev = Once_Go c'" | "ev = Once_Go c" "Once_Go c' \<in> set evs"
      | "ev = Once_Go c" "ev = Once_Go c'" by auto
    then show ?thesis
    proof cases
      case 1
      then show ?thesis by (rule one)
    next
      case 2
      from * [OF this] show ?thesis by simp
    next
      case 3
      from * [OF 3(2,1)] show ?thesis by simp
    next
      case 4
      then show ?thesis by simp
    qed
  qed
  have 4: "live s"
    if "(\<exists>ev \<in> set (evs @ [ev]). is_enter ev) \<or> downloader.err (dl s) \<noteq> None"
  proof -
    from that consider "(\<exists>ev \<in> set evs. is_enter ev) \<or> downloader.err (dl s1) \<noteq> None"
      | "downloader.err (dl s1) = None" "downloader.err (dl s) \<noteq> None"
      | "downloader.err (dl s1) = None" "is_enter ev" by auto
    then show ?thesis
    proof cases
      case 1
      from live_stable [OF inv st lv [OF 1]] show ?thesis .
    next
      case 2
      with sys_step_err [OF st] have "workers (dl s1) \<noteq> []" by auto
      from live_stable [OF inv st workers_live [OF inv this]] show ?thesis .
    next
      case 3
      from st 3 obtain c n where c: "caller_at s1 c = Some Idle" and s: "s = move s1 c (AtOnce n)"
        by (cases rule: sys_step_cases) auto
      from caller_atD [OF c] have "AtOnce n \<in> set (callers s)"
        unfolding s move_def by (simp add: set_update_memI)
      moreover have "starting (AtOnce n)" by simp
      ultimately show ?thesis unfolding live_def by blast
    qed
  qed
  from 1 2 3 4 show ?case by blast
qed

lemma spawned_le: "caller_ok k dn x \<Longrightarrow> spawned k x \<le> k"
  by (cases x) simp_all

lemma workers_le:
  assumes inv: "once_inv k s"
  shows "length (workers (dl s)) \<le> k"
proof (cases "once (dl s)")
  case True
  with once_inv_done [OF inv] show ?thesis by simp
next
  case False
  note cnt = once_inv_count [OF inv False]
  show ?thesis
  proof (cases "once_m s")
    case None
    with cnt show ?thesis by simp
  next
    case (Some h)
    from once_inv_held [OF inv Some] have "callers s ! h \<in> set (callers s)" by simp
    from spawned_le [OF once_inv_ok [OF inv this]] cnt Some show ?thesis by simp
  qed
qed

text \<open>A call nobody interferes with.\<close>

lemma go_loop:
  assumes "caller_at s c = Some (Spawning i n)" and "\<not> panicked (dl s)" and "i + j \<le> k"
  shows "sys_run w k (replicate j (Once_Go c)) s =
         Some ((move s c (Spawning (i + j) n))
                 \<lparr>dl := (dl s)\<lparr>workers := workers (dl s) @ replicate j AtRange\<rparr>\<rparr>)"
  using assms
proof (induction j arbitrary: s i)
  case 0
  from caller_atD [OF 0(1)] have "(callers s)[c := Spawning i n] = callers s"
    by (metis list_update_id)
  then show ?case by (simp add: move_def)
next
  case (Suc j)
  let ?s1 = "(move s c (Spawning (i + 1) n))\<lparr>dl := (dl s)\<lparr>workers := workers (dl s) @ [AtRange]\<rparr>\<rparr>"
  from Suc.prems have st: "sys_step w k (Once_Go c) s = Some ?s1"
    by (simp add: sys_step_def)
  from caller_atD [OF Suc.prems(1)] have at: "caller_at ?s1 c = Some (Spawning (i + 1) n)"
    by (simp add: caller_at_def move_def)
  from Suc.prems have "\<not> panicked (dl ?s1)" "(i + 1) + j \<le> k" by (simp_all add: move_def)
  from Suc.IH [OF at this] st show ?case
    by (simp add: move_def replicate_app_Cons_same)
qed

lemma once_Do_alone:
  assumes at: "caller_at s c = Some (AtOnce n)" and free: "once_m s = None"
    and run: "\<not> panicked (dl s)" and first: "\<not> once (dl s)" and none: "workers (dl s) = []"
  shows "sys_run w k (Do_events c k) s =
         Some ((move s c (Reading n))\<lparr>dl := once_Do k (dl s)\<rparr>)"
proof -
  from caller_atD [OF at] have c: "c < length (callers s)" by simp
  let ?s3 = "(move s c (Spawning 0 n))\<lparr>once_m := Some c\<rparr>"
  from at free run first c
  have a: "sys_run w k [Once_Load c, Once_Lock c, Once_Test c] s = Some ?s3"
    by (simp add: sys_step_def caller_at_def move_def)
  from c have "caller_at ?s3 c = Some (Spawning 0 n)" by (simp add: caller_at_def move_def)
  moreover from run have "\<not> panicked (dl ?s3)" by (simp add: move_def)
  ultimately have b: "sys_run w k (replicate k (Once_Go c)) ?s3 =
      Some ((move ?s3 c (Spawning (0 + k) n))
              \<lparr>dl := (dl ?s3)\<lparr>workers := workers (dl ?s3) @ replicate k AtRange\<rparr>\<rparr>)"
    by (rule go_loop) simp
  let ?s4 = "(move ?s3 c (Spawning (0 + k) n))
              \<lparr>dl := (dl ?s3)\<lparr>workers := workers (dl ?s3) @ replicate k AtRange\<rparr>\<rparr>"
  from c run first none
  have d: "sys_run w k [Once_Return c, Once_Store c, Once_Unlock c] ?s4 =
      Some ((move s c (Reading n))\<lparr>dl := once_Do k (dl s)\<rparr>)"
    by (simp add: sys_step_def caller_at_def move_def once_Do_def free [symmetric])
  show ?thesis by (simp only: Do_events_def sys_run_append a b d option.case)
qed

text \<open>
  The first call of \<^verbatim>\<open>Read\<close>, with nobody in its way, does to the downloader what the one
  action \<open>Call_Read\<close> of the consumer does.
\<close>

lemma Read_alone:
  assumes at: "caller_at s c = Some Idle" and free: "once_m s = None"
    and run: "\<not> panicked (dl s)" and first: "\<not> once (dl s)" and none: "workers (dl s) = []"
    and ok: "downloader.err (dl s) = None" and ready: "consumer (dl s) = Ready"
  shows "\<exists>s'. sys_run w k (Enter c n # Do_events c k) s = Some s'
            \<and> caller_at s' c = Some (Reading n)
            \<and> step w k (Call_Read n) (dl s) = Some ((dl s')\<lparr>consumer := InRead n\<rparr>)"
proof -
  let ?s1 = "move s c (AtOnce n)"
  from caller_atD [OF at] have c: "c < length (callers s)" by simp
  from at run ok have a: "sys_step w k (Enter c n) s = Some ?s1"
    by (simp add: sys_step_def)
  from c have "caller_at ?s1 c = Some (AtOnce n)" by (simp add: caller_at_def move_def)
  moreover from free run first none
  have "once_m ?s1 = None" "\<not> panicked (dl ?s1)" "\<not> once (dl ?s1)" "workers (dl ?s1) = []"
    by (simp_all add: move_def)
  ultimately have b: "sys_run w k (Do_events c k) ?s1 =
      Some ((move ?s1 c (Reading n))\<lparr>dl := once_Do k (dl ?s1)\<rparr>)"
    by (rule once_Do_alone)
  let ?s' = "(move ?s1 c (Reading n))\<lparr>dl := once_Do k (dl ?s1)\<rparr>"
  from a b have "sys_run w k (Enter c n # Do_events c k) s = Some ?s'" by simp
  moreover from c have "caller_at ?s' c = Some (Reading n)"
    by (simp add: caller_at_def move_def)
  moreover from run ok ready
  have "step w k (Call_Read n) (dl s) = Some ((dl ?s')\<lparr>consumer := InRead n\<rparr>)"
    by (simp add: step_def move_def)
  ultimately show ?thesis by blast
qed

text \<open>
  The mutex: while a caller holds it \<^verbatim>\<open>o.m.Lock()\<close> blocks, and no two callers are between
  \<^verbatim>\<open>o.m.Lock()\<close> and \<^verbatim>\<open>o.m.Unlock()\<close>.
\<close>

lemma Lock_blocks: "once_m s = Some h \<Longrightarrow> sys_step w k (Once_Lock c) s = None"
  by (simp add: sys_step_def split: option.splits caller.splits)

lemma one_in_Do:
  assumes "sys_run w k evs (sys_init k cs m) = Some s"
    and "c < length (callers s)" and "critical (callers s ! c)"
    and "c' < length (callers s)" and "critical (callers s ! c')"
  shows "c' = c"
proof -
  from assms(1) have inv: "once_inv k s" by (rule once_inv_run)
  from once_inv_holder [OF inv assms(2,3)] once_inv_holder [OF inv assms(4,5)]
  show ?thesis by simp
qed

text \<open>
  C5 (lazy one-shot start). Any number of goroutines call \<^verbatim>\<open>Read\<close> (or \<^verbatim>\<open>WriteTo\<close>, which
  calls it) as they like after \<^verbatim>\<open>Open\<close>, their steps through \<^verbatim>\<open>d.once.Do\<close> interleaved with
  each other and with the workers in any way. Then, at every moment of every run: each
  worker was started by one \<^verbatim>\<open>go\<close> statement and there are at most \<^verbatim>\<open>concurrency\<close> of them;
  all \<^verbatim>\<open>go\<close> statements were executed by one and the same caller; a caller that has come
  out of \<^verbatim>\<open>d.once.Do\<close> finds exactly \<^verbatim>\<open>concurrency\<close> workers; when no caller is on its way
  through \<^verbatim>\<open>d.once.Do\<close> the workers are \<^verbatim>\<open>concurrency\<close> if \<^verbatim>\<open>Read\<close> has been called and none
  otherwise; and as long as \<^verbatim>\<open>Read\<close> has not been called there is no worker, no request
  for a chunk has been issued and no chunk has left \<^verbatim>\<open>d.chunks\<close>.
\<close>

theorem concurrent_one_shot_start:
  assumes "sys_run w k evs (sys_init k cs m) = Some s"
  shows "length (workers (dl s)) = length (filter is_go evs)
       \<and> length (workers (dl s)) \<le> k
       \<and> (\<forall>c c'. Once_Go c \<in> set evs \<longrightarrow> Once_Go c' \<in> set evs \<longrightarrow> c' = c)
       \<and> (\<forall>c n. caller_at s c = Some (Reading n) \<longrightarrow> length (workers (dl s)) = k)
       \<and> (settled s \<longrightarrow>
            length (workers (dl s)) = (if \<exists>ev \<in> set evs. is_enter ev then k else 0))
       \<and> ((\<forall>ev \<in> set evs. \<not> is_enter ev) \<longrightarrow>
            workers (dl s) = [] \<and> requests (dl s) = [] \<and> claimed (dl s) = 0)"
proof -
  from assms have inv: "once_inv k s" by (rule once_inv_run)
  note h = go_history [OF assms]
  from h have 1: "length (workers (dl s)) = length (filter is_go evs)" by blast
  from inv have 2: "length (workers (dl s)) \<le> k" by (rule workers_le)
  from h have 3: "\<forall>c c'. Once_Go c \<in> set evs \<longrightarrow> Once_Go c' \<in> set evs \<longrightarrow> c' = c" by blast
  have 4: "length (workers (dl s)) = k" if "caller_at s c = Some (Reading n)" for c n
  proof -
    from caller_ok_at [OF inv that] have "once (dl s)" by simp
    with inv show ?thesis by (rule once_inv_done)
  qed
  have quiet: "workers (dl s) = [] \<and> requests (dl s) = [] \<and> claimed (dl s) = 0"
    if "\<forall>ev \<in> set evs. \<not> is_enter ev"
  proof -
    from quiet_run [OF assms that] have "s = sys_init k cs m" by simp
    then show ?thesis by (simp add: sys_init_def new_downloader_def claimed_def)
  qed
  have 5: "length (workers (dl s)) = (if \<exists>ev \<in> set evs. is_enter ev then k else 0)"
    if "settled s"
  proof (cases "\<exists>ev \<in> set evs. is_enter ev")
    case True
    with h have "live s" by blast
    with that have "once (dl s)" by (auto simp: live_def settled_def)
    with inv have "length (workers (dl s)) = k" by (rule once_inv_done)
    with True show ?thesis by simp
  next
    case False
    with quiet show ?thesis by simp
  qed
  from 1 2 3 4 5 quiet show ?thesis by blast
qed

theorem concurrent_one_shot_start_witness:
  "(\<exists>s. sys_run abc_net 2 race (sys_init 2 abc_chunks 2) = Some s
       \<and> callers s = [Reading 10, Reading 10] \<and> settled s
       \<and> Once_Go 1 \<in> set race \<and> (\<exists>ev \<in> set race. is_enter ev)
       \<and> length (filter is_go race) = 2 \<and> length (workers (dl s)) = 2)
   \<and> (\<exists>s. sys_run abc_net 2 [] (sys_init 2 abc_chunks 2) = Some s
       \<and> workers (dl s) = [] \<and> requests (dl s) = [] \<and> claimed (dl s) = 0)"
proof -
  obtain s where run: "sys_run abc_net 2 race (sys_init 2 abc_chunks 2) = Some s"
    and at: "callers s = [Reading 10, Reading 10]"
    by (simp add: race_def sys_step_def sys_init_def new_downloader_def caller_at_def move_def
        numeral_2_eq_2)
  from at have st: "settled s" by (simp add: settled_def)
  have go: "Once_Go 1 \<in> set race" and en: "\<exists>ev \<in> set race. is_enter ev"
    by (simp_all add: race_def)
  have none: "sys_run abc_net 2 [] (sys_init 2 abc_chunks 2) = Some (sys_init 2 abc_chunks 2)"
    by simp
  from concurrent_one_shot_start [OF run] st en
  have a: "length (workers (dl s)) = 2" and b: "length (filter is_go race) = 2" by simp_all
  from concurrent_one_shot_start [OF none]
  have c: "workers (dl (sys_init 2 abc_chunks 2)) = []
      \<and> requests (dl (sys_init 2 abc_chunks 2)) = []
      \<and> claimed (dl (sys_init 2 abc_chunks 2)) = 0" by simp
  from run at st go en a b none c show ?thesis by blast
qed

subsection \<open>The admission window\<close>

lemma busy_update:
  "i < length ws \<Longrightarrow>
   sum_list (map busy1 (ws[i := x])) + busy1 (ws ! i) = sum_list (map busy1 ws) + busy1 x"
  by (induction ws arbitrary: i) (auto split: nat.splits)

lemma busy_same:
  "i < length ws \<Longrightarrow> busy1 (ws ! i) = busy1 x \<Longrightarrow>
   sum_list (map busy1 (ws[i := x])) = sum_list (map busy1 ws)"
  using busy_update [of i ws x] by simp

lemma busy_inc:
  "i < length ws \<Longrightarrow> busy1 (ws ! i) = 0 \<Longrightarrow> busy1 x = 1 \<Longrightarrow>
   sum_list (map busy1 (ws[i := x])) = Suc (sum_list (map busy1 ws))"
  using busy_update [of i ws x] by simp

lemma busy_dec:
  "i < length ws \<Longrightarrow> busy1 (ws ! i) = 1 \<Longrightarrow> busy1 x = 0 \<Longrightarrow>
   Suc (sum_list (map busy1 (ws[i := x]))) = sum_list (map busy1 ws)"
  using busy_update [of i ws x] by simp

lemma busy_le: "sum_list (map busy1 ws) \<le> length ws"
  by (induction ws) (auto simp: le_Suc_eq intro: le_SucI, (case_tac a; simp)+)

lemma window_step:
  assumes "window d" and "started k d" and "step w k ev d = Some d'"
  shows "window d'"
proof (cases ev)
  case (Call_Read n)
  with assms show ?thesis
    by (auto simp: step_def window_def started_def busy_def once_Do_def split: if_splits consumer.splits)
next
  case Reader_Iter
  from assms(3) [unfolded Reader_Iter] show ?thesis
  proof (cases rule: Reader_Iter_step)
    case (1 n)
    with assms(1) show ?thesis by (auto simp: window_def busy_def)
  next
    case (2 n)
    then have "multi_iter d n = IContinue d' \<or> (\<exists>p e. multi_iter d n = IReturn d' p e)"
      by simp
    from multi_iter_shape [OF this] 2 assms(1) show ?thesis
      by (simp add: window_def busy_def)
  next
    case (3 n d1 p e)
    then have "multi_iter d n = IContinue d1 \<or> (\<exists>p e. multi_iter d n = IReturn d1 p e)"
      by blast
    from multi_iter_shape [OF this] 3 assms(1) show ?thesis
      by (simp add: window_def busy_def)
  qed
next
  case (Worker_Recv i)
  with assms show ?thesis
    by (auto simp: step_def window_def busy_def worker_at_def started_def busy_same busy_inc split: if_splits option.splits worker.splits list.splits)
next
  case (Worker_Download i)
  with assms show ?thesis
    by (auto simp: step_def window_def busy_def worker_at_def busy_same split: if_splits option.splits worker.splits outcome.splits)
next
  case (Worker_SetErr i)
  with assms show ?thesis
    by (auto simp: step_def window_def busy_def worker_at_def busy_same split: if_splits option.splits worker.splits)
next
  case (Worker_ReadAhead i)
  with assms busy_dec [of i "workers d" AtRange] show ?thesis
    by (auto simp: step_def window_def busy_def worker_at_def chan_recv_def split: if_splits option.splits worker.splits)
qed

lemma window_new: "window (new_downloader k cs)"
  by (simp add: window_def new_downloader_def busy_def)

lemma window_run:
  assumes "run w k evs (new_downloader k cs) = Some d"
  shows "window d"
proof -
  have "started k d \<and> window d"
  proof (rule run_invariant [where P = "\<lambda>d. started k d \<and> window d", OF _ _ assms])
    show "started k (new_downloader k cs) \<and> window (new_downloader k cs)"
      by (simp add: started_new window_new)
  next
    fix ev d d'
    assume "started k d \<and> window d" and "step w k ev d = Some d'"
    then show "started k d' \<and> window d'"
      using started_step window_step by blast
  qed
  then show ?thesis ..
qed

lemma busy_bound:
  assumes "started k d"
  shows "busy d \<le> k"
  using assms busy_le [of "workers d"] by (auto simp: started_def busy_def split: if_splits)

lemma readers_unchanged:
  assumes "run w k evs d0 = Some d" and "Reader_Iter \<notin> set evs"
  shows "r_readers d = r_readers d0 \<and> length (chunks d) = length (chunks d0)"
  using assms
proof (induction evs arbitrary: d0)
  case Nil
  then show ?case by simp
next
  case (Cons ev evs)
  then obtain d1 where d1: "step w k ev d0 = Some d1" and run: "run w k evs d1 = Some d"
    by (auto split: option.splits)
  from Cons.prems(2) have ev: "ev \<noteq> Reader_Iter" and evs: "Reader_Iter \<notin> set evs" by auto
  from d1 ev have "r_readers d1 = r_readers d0 \<and> length (chunks d1) = length (chunks d0)"
    by (cases ev)
      (auto simp: step_def worker_at_def once_Do_def
        split: if_splits option.splits worker.splits list.splits outcome.splits consumer.splits)
  with Cons.IH [OF run evs] show ?case by simp
qed

text \<open>
  C7 (backpressure bound). With \<^verbatim>\<open>concurrency\<close> \<open>k\<close>, in every state the goroutines can
  reach: the chunks claimed by workers and not yet drained by the consumer are at most
  \<open>k\<close>; the values in \<^verbatim>\<open>d.readAhead\<close> are at most the chunks drained; if the consumer has
  never run a round of its read, nothing is drained and at most \<open>k\<close> chunks are claimed;
  and a worker that has finished a chunk cannot receive the next one, nor pass
  \<^verbatim>\<open><-d.readAhead\<close> while the channel is empty.
\<close>

theorem backpressure_bound:
  assumes "run w k evs (new_downloader k cs) = Some d"
  shows "claimed d \<le> drained d + k
       \<and> held (readAhead d) \<le> drained d
       \<and> (Reader_Iter \<notin> set evs \<longrightarrow> drained d = 0 \<and> claimed d \<le> k)
       \<and> (\<forall>i. worker_at d i = Some AtReadAhead \<longrightarrow>
            step w k (Worker_Recv i) d = None \<and>
            (held (readAhead d) = 0 \<longrightarrow> step w k (Worker_ReadAhead i) d = None))"
proof -
  from assms have st: "started k d" and wi: "window d"
    by (rule started_run, rule window_run)
  from wi busy_bound [OF st] have a: "claimed d \<le> drained d + k"
    by (auto simp: window_def claimed_def drained_def)
  from wi have b: "held (readAhead d) \<le> drained d"
    by (auto simp: window_def drained_def)
  have c: "drained d = 0" if "Reader_Iter \<notin> set evs"
    using readers_unchanged [OF assms that]
    by (simp add: drained_def new_downloader_def)
  have e: "step w k (Worker_Recv i) d = None \<and>
      (held (readAhead d) = 0 \<longrightarrow> step w k (Worker_ReadAhead i) d = None)"
    if "worker_at d i = Some AtReadAhead" for i
    using that by (simp add: step_def chan_recv_def)
  from a b c e show ?thesis by auto
qed

theorem backpressure_bound_witness:
  "\<exists>d. run abc_net 2 [Call_Read 10, Worker_Recv 0, Worker_Recv 1, Worker_Download 1,
           Worker_SetErr 1, Worker_Download 0, Worker_SetErr 0]
         (new_downloader 2 abc_chunks) = Some d
      \<and> claimed d = 2 \<and> drained d = 0 \<and> workers d = [AtReadAhead, AtReadAhead]
      \<and> step abc_net 2 (Worker_Recv 0) d = None \<and> step abc_net 2 (Worker_ReadAhead 0) d = None
      \<and> step abc_net 2 (Worker_Recv 1) d = None \<and> step abc_net 2 (Worker_ReadAhead 1) d = None"
proof -
  let ?evs = "[Call_Read 10, Worker_Recv 0, Worker_Recv 1, Worker_Download 1,
           Worker_SetErr 1, Worker_Download 0, Worker_SetErr 0]"
  obtain d where d: "run abc_net 2 ?evs (new_downloader 2 abc_chunks) = Some d"
    and w: "workers d = [AtReadAhead, AtReadAhead]" and c: "claimed d = 2"
    and h: "held (readAhead d) = 0"
    unfolding abc_chunks_def abc_net_def
    by (simp add: run_defs claimed_def)
  have r: "Reader_Iter \<notin> set ?evs" by simp
  from w have at: "worker_at d 0 = Some AtReadAhead" "worker_at d 1 = Some AtReadAhead"
    by (simp_all add: worker_at_def)
  from backpressure_bound [OF d] r at h c w d show ?thesis
    by (intro exI [of _ d]) simp
qed

subsection \<open>The end of the workers\<close>

lemma workers_never_exit:
  assumes "run w k evs (new_downloader k cs) = Some d"
  shows "Exited \<notin> set (workers d) \<and> \<not> chunks_closed d
       \<and> (chunks_ch d = [] \<longrightarrow> (\<forall>i. step w k (Worker_Recv i) d = None))"
  using started_run [OF assms]
  by (auto simp: started_def step_def split: option.splits worker.splits)

text \<open>
  C8 (worker termination). The claim has every worker leave its loop once all chunks
  are handed out. Nothing closes \<^verbatim>\<open>d.chunks\<close>: at the end of the scenario, with the three
  chunks downloaded and read and \<^verbatim>\<open>io.EOF\<close> returned, both workers are back at
  \<^verbatim>\<open>for c := range d.chunks\<close> and no action of a worker can happen any more. By
  \<open>workers_never_exit\<close> this is so in every run.
\<close>

theorem workers_blocked_after_last_chunk:
  "run abc_net 2 abc_events (new_downloader 2 abc_chunks) = Some abc_final
   \<and> chunks_ch abc_final = [] \<and> r_readers abc_final = []
   \<and> workers abc_final = [AtRange, AtRange]
   \<and> map (\<lambda>ev. step abc_net 2 ev abc_final)
        [Worker_Recv 0, Worker_Recv 1, Worker_Download 0, Worker_Download 1,
         Worker_SetErr 0, Worker_SetErr 1, Worker_ReadAhead 0, Worker_ReadAhead 1]
      = replicate 8 None"
  by (simp add: abc_run) (simp add: abc_final_def step_def worker_at_def eval_nat_numeral)

subsection \<open>Who owns a chunk\<close>

lemma count_list_update:
  "i < length ws \<Longrightarrow>
   count_list (ws[i := x]) y + (if ws ! i = y then 1 else 0) =
   count_list ws y + (if x = y then 1 else 0)"
proof (induction ws arbitrary: i)
  case Nil
  then show ?case by simp
next
  case (Cons a ws)
  show ?case
  proof (cases i)
    case 0
    then show ?thesis by simp
  next
    case (Suc j)
    with Cons.prems have "j < length ws" by simp
    from Cons.IH [OF this] Suc show ?thesis by (auto split: if_splits)
  qed
qed

lemma Download_fresh:
  assumes "fresh c"
  shows "\<exists>c' e rq. Download w c = Done (c', e, rq) \<and> done_c c' \<and> buf c' \<noteq> None \<and>
           chunk.err c' = chunk.err c \<and> url c' = url c \<and> header c' = header c"
  using assms
  by (auto simp: fresh_def Download_def close_done_def Let_def split: option.splits sum.splits)

lemma tidy_Call_Read:
  assumes "tidy d" and "step w k (Call_Read n) d = Some d'"
  shows "tidy d'"
proof -
  from assms(2) have "d' = d\<lparr>returns := returns d @ [([], downloader.err d)]\<rparr> \<or>
      d' = (once_Do k d)\<lparr>consumer := InRead n\<rparr> \<and> downloader.err d = None"
    by (auto simp: step_def split: if_splits consumer.splits)
  moreover have "tidy (d\<lparr>returns := returns d @ [([], downloader.err d)]\<rparr>)"
    using assms(1) by (simp add: tidy_def)
  moreover have "tidy ((once_Do k d)\<lparr>consumer := InRead n\<rparr>)"
    using assms(1) by (simp add: tidy_def once_Do_def)
  ultimately show ?thesis by auto
qed

lemma tidy_Worker_SetErr:
  assumes "tidy d" and "step w k (Worker_SetErr i) d = Some d'"
  shows "tidy d'"
proof -
  from assms(2) obtain e where i: "i < length (workers d)" and wi: "workers d ! i = Returned e"
    and d': "d' = d\<lparr>err := (if e \<noteq> None then e else downloader.err d),
                  workers := (workers d)[i := AtReadAhead]\<rparr>"
    by (auto simp: step_def worker_at_def split: if_splits option.splits worker.splits)
  have cnt: "count_list ((workers d)[i := AtReadAhead]) (InDownload c) = count_list (workers d) (InDownload c)" for c
    using count_list_update [OF i, of AtReadAhead "InDownload c"] wi by simp
  have mem: "InDownload c \<in> set ((workers d)[i := AtReadAhead]) \<Longrightarrow> InDownload c \<in> set (workers d)" for c
    by (auto dest: in_set_update)
  from assms(1) show ?thesis
    unfolding tidy_def d' by (simp add: cnt) (blast dest: mem)
qed

lemma tidy_Worker_ReadAhead:
  assumes "tidy d" and "step w k (Worker_ReadAhead i) d = Some d'"
  shows "tidy d'"
proof -
  from assms(2) obtain ra' where i: "i < length (workers d)" and wi: "workers d ! i = AtReadAhead"
    and d': "d' = d\<lparr>readAhead := ra', workers := (workers d)[i := AtRange]\<rparr>"
    by (auto simp: step_def worker_at_def split: if_splits option.splits worker.splits)
  have cnt: "count_list ((workers d)[i := AtRange]) (InDownload c) = count_list (workers d) (InDownload c)" for c
    using count_list_update [OF i, of AtRange "InDownload c"] wi by simp
  have mem: "InDownload c \<in> set ((workers d)[i := AtRange]) \<Longrightarrow> InDownload c \<in> set (workers d)" for c
    by (auto dest: in_set_update)
  from assms(1) show ?thesis
    unfolding tidy_def d' by (simp add: cnt) (blast dest: mem)
qed

lemma tidy_update_done:
  assumes "tidy d" and "c < length (chunks d)" and "done_c (chunks d ! c)"
    and "done_c c'" and "chunk.err c' = None" and "buf c' \<noteq> None \<or> c \<notin> set rs'"
    and "distinct rs'" and "set rs' \<subseteq> set (r_readers d)"
  shows "tidy (d\<lparr>chunks := (chunks d)[c := c'], readAhead := ra', r_readers := rs'\<rparr>)"
  using assms
  by (auto simp: tidy_def nth_list_update fresh_def dest: in_set_update)

lemma tidy_Reader_Iter:
  assumes "tidy d" and "step w k Reader_Iter d = Some d'"
  shows "tidy d'"
proof -
  have err: "chunk.err (chunks d ! c) = None" if "c \<in> set (r_readers d)" for c
    using assms(1) that by (auto simp: tidy_def)
  from assms(2) obtain n where n: "consumer d = InRead n"
    by (auto elim: Reader_Iter_step)
  show ?thesis
  proof (cases rule: multi_iter_cases [of d n])
    case Empty
    with assms n show ?thesis
      by (auto simp: step_def tidy_def)
  next
    case (Wait c rest)
    with assms n show ?thesis by (auto simp: step_def split: if_splits)
  next
    case (Err c rest e)
    with err [of c] show ?thesis by simp
  next
    case (NilBuf c rest)
    with assms(1) show ?thesis by (auto simp: tidy_def)
  next
    case (Full c rest)
    with assms n show ?thesis by (auto simp: step_def split: if_splits)
  next
    case (Drained c rest ra')
    with assms(2) n have d': "d' = d\<lparr>chunks := (chunks d)[c := (chunks d ! c)\<lparr>buf := None\<rparr>],
                     readAhead := ra', r_readers := rest\<rparr>"
      by (simp add: step_def split: if_splits)
    from assms(1) Drained(1) have "c < length (chunks d)" "distinct rest" "c \<notin> set rest"
      "set rest \<subseteq> set (r_readers d)"
      by (auto simp: tidy_def)
    with assms(1) Drained show ?thesis
      unfolding d' by (intro tidy_update_done) auto
  next
    case (Bytes c rest b)
    with assms(2) n have d': "d' = d\<lparr>chunks := (chunks d)[c := (chunks d ! c)\<lparr>buf := Some (drop n b)\<rparr>],
                   readAhead := readAhead d, r_readers := c # rest,
                   returns := returns d @ [(take n b, None)], consumer := Ready\<rparr>"
      by (simp add: step_def split: if_splits)
    from assms(1) Bytes(1) have "c < length (chunks d)" "distinct (c # rest)"
      by (auto simp: tidy_def)
    with assms(1) Bytes have "tidy (d\<lparr>chunks := (chunks d)[c := (chunks d ! c)\<lparr>buf := Some (drop n b)\<rparr>],
                   readAhead := readAhead d, r_readers := c # rest\<rparr>)"
      by (intro tidy_update_done) auto
    then show ?thesis unfolding d' by (simp add: tidy_def)
  qed
qed

lemma tidy_Worker_Recv:
  assumes "tidy d" and "step w k (Worker_Recv i) d = Some d'"
  shows "tidy d'"
proof -
  from assms(2) have i: "i < length (workers d)" and wi: "workers d ! i = AtRange"
    by (auto simp: step_def worker_at_def split: if_splits option.splits worker.splits)
  show ?thesis
  proof (cases "chunks_ch d")
    case Nil
    with assms(2) i wi have d': "d' = d\<lparr>workers := (workers d)[i := Exited]\<rparr>"
      by (auto simp: step_def worker_at_def split: if_splits)
    have cnt: "count_list ((workers d)[i := Exited]) (InDownload c) = count_list (workers d) (InDownload c)" for c
      using count_list_update [OF i, of Exited "InDownload c"] wi by simp
    have mem: "InDownload c \<in> set ((workers d)[i := Exited]) \<Longrightarrow> InDownload c \<in> set (workers d)" for c
      by (auto dest: in_set_update)
    from assms(1) show ?thesis
      unfolding tidy_def d' by (simp add: cnt) (blast dest: mem)
  next
    case (Cons c rest)
    with assms(2) i wi have d': "d' = d\<lparr>chunks_ch := rest, workers := (workers d)[i := InDownload c]\<rparr>"
      by (auto simp: step_def worker_at_def split: if_splits)
    from assms(1) Cons have "InDownload c \<notin> set (workers d)"
      by (auto simp: tidy_def)
    then have c0: "count_list (workers d) (InDownload c) = 0"
      by (simp add: count_list_0_iff)
    have le: "count_list (workers d) (InDownload x) \<le> Suc 0" for x
      using assms(1) by (simp add: tidy_def)
    have cnt: "count_list ((workers d)[i := InDownload c]) (InDownload x) \<le> Suc 0" for x
      using count_list_update [OF i, of "InDownload c" "InDownload x"] wi c0 le [of x]
      by (simp split: if_splits)
    have mem: "InDownload x \<in> set ((workers d)[i := InDownload c]) \<Longrightarrow> x = c \<or> InDownload x \<in> set (workers d)" for x
      by (auto dest: in_set_update)
    from assms(1) Cons show ?thesis
      unfolding tidy_def d' by (simp add: cnt) (blast dest: mem)
  qed
qed

lemma tidy_Worker_Download:
  assumes "tidy d" and "step w k (Worker_Download i) d = Some d'"
  shows "tidy d'"
proof -
  from assms(2) obtain c where i: "i < length (workers d)" and wi: "workers d ! i = InDownload c"
    by (auto simp: step_def worker_at_def split: if_splits option.splits worker.splits)
  then have "InDownload c \<in> set (workers d)" by (auto simp: in_set_conv_nth)
  with assms(1) have c: "c < length (chunks d)" "c \<notin> set (chunks_ch d)" "fresh (chunks d ! c)"
    by (auto simp: tidy_def)
  from Download_fresh [OF c(3), of w] obtain c' e rq where
    dl: "Download w (chunks d ! c) = Done (c', e, rq)" and c': "done_c c'" "buf c' \<noteq> None"
      "chunk.err c' = chunk.err (chunks d ! c)"
    by blast
  from assms(2) i wi dl have d': "d' = d\<lparr>chunks := (chunks d)[c := c'], requests := requests d @ rq,
                       workers := (workers d)[i := Returned e]\<rparr>"
    by (simp add: step_def worker_at_def split: if_splits)
  have cnt: "count_list ((workers d)[i := Returned e]) (InDownload x) + (if x = c then 1 else 0)
      = count_list (workers d) (InDownload x)" for x
    using count_list_update [OF i, of "Returned e" "InDownload x"] wi by auto
  have le: "count_list (workers d) (InDownload x) \<le> Suc 0" for x
    using assms(1) by (simp add: tidy_def)
  have cnt1: "count_list ((workers d)[i := Returned e]) (InDownload x) \<le> Suc 0" for x
    using cnt [of x] le [of x] by (simp split: if_splits)
  have "count_list ((workers d)[i := Returned e]) (InDownload c) = 0"
    using cnt [of c] le [of c] by simp
  then have notc: "InDownload c \<notin> set ((workers d)[i := Returned e])"
    by (simp add: count_list_0_iff)
  have mem: "InDownload x \<in> set ((workers d)[i := Returned e]) \<Longrightarrow> x \<noteq> c \<and> InDownload x \<in> set (workers d)" for x
    using notc by (auto dest: in_set_update)
  have errc: "chunk.err c' = None"
    using c' c(1) assms(1) by (auto simp: tidy_def)
  from assms(1) c c' errc show ?thesis
    unfolding tidy_def d'
    by (simp add: cnt1) (auto simp: nth_list_update fresh_def dest: mem in_set_update)
qed

lemma tidy_step:
  assumes "tidy d" and "step w k ev d = Some d'"
  shows "tidy d'"
  using assms
  by (cases ev)
    (blast intro: tidy_Call_Read tidy_Reader_Iter tidy_Worker_Recv
       tidy_Worker_Download tidy_Worker_SetErr tidy_Worker_ReadAhead)+

lemma tidy_new:
  "tidy (new_downloader k (map (new_chunk u) rs))"
  by (auto simp: tidy_def new_downloader_def new_chunk_def fresh_def)

lemma tidy_run:
  assumes "run w k evs (new_downloader k (map (new_chunk u) rs)) = Some d"
  shows "tidy d"
proof (rule run_invariant [where P = tidy, OF _ _ assms])
  show "tidy (new_downloader k (map (new_chunk u) rs))" by (rule tidy_new)
next
  fix ev d d'
  assume "tidy d" and "step w k ev d = Some d'"
  then show "tidy d'" by (rule tidy_step)
qed

lemma chunk_err_unset:
  assumes "run w k evs (new_downloader k (map (new_chunk u) rs)) = Some d"
  shows "\<forall>c \<in> set (chunks d). chunk.err c = None"
  using tidy_run [OF assms] by (simp add: tidy_def)

text \<open>
  C2 (the error at the position of the failed chunk). \<^verbatim>\<open>Download\<close> returns its error to
  the worker, which stores it in \<^verbatim>\<open>d.err\<close>; nothing stores it in \<^verbatim>\<open>c.err\<close>, which
  \<^verbatim>\<open>chunk.Read\<close> tests (\<open>chunk_err_unset\<close>). Two runs on the scenario's chunks. In the first
  the server refuses the first chunk: the \<^verbatim>\<open>Read\<close> in progress takes the failed chunk for an
  empty one and returns the ten bytes of the second chunk, and only the next \<^verbatim>\<open>Read\<close>
  returns the error. In the second the server refuses the second chunk while the
  consumer has read four bytes of the first: the next \<^verbatim>\<open>Read\<close> returns the error, and the
  other six bytes of the first chunk are never returned.
\<close>

theorem failed_chunk_error_misplaced:
  "map_option returns
     (run (mock (ok_probe ''25'') (denied_at 0)) 2
        [Call_Read 10, Worker_Recv 0, Worker_Download 0, Worker_SetErr 0,
         Worker_Recv 1, Worker_Download 1, Worker_SetErr 1, Reader_Iter, Reader_Iter,
         Call_Read 10]
        (new_downloader 2 abc_chunks))
     = Some [(''BBBBBBBBBB'', None), ([], Some (ResponseError 403 ''denied''))]
   \<and> map_option returns
     (run (mock (ok_probe ''25'') (denied_at 10)) 2
        [Call_Read 4, Worker_Recv 0, Worker_Recv 1, Worker_Download 1, Worker_SetErr 1,
         Worker_Download 0, Worker_SetErr 0, Reader_Iter, Call_Read 4]
        (new_downloader 2 abc_chunks))
     = Some [(''AAAA'', None), ([], Some (ResponseError 403 ''denied''))]"
  unfolding abc_chunks_def
  by (simp add: run_defs)

subsection \<open>The order of the bytes\<close>

lemma Download_succeeds:
  assumes "succeeds w c" and "fresh c"
  shows "Download w c = Done (c\<lparr>buf := Some (payload w c), done_c := True\<rparr>, None, [get_request c])"
  using assms
  by (auto simp: succeeds_def fresh_def payload_def get_request_def Download_def close_done_def
      split: sum.splits)

lemma succeeds_update [simp]:
  "succeeds w (c\<lparr>buf := b\<rparr>) = succeeds w c" "succeeds w (c\<lparr>done_c := x\<rparr>) = succeeds w c"
  by (simp_all add: succeeds_def get_request_def)

lemma payload_update [simp]:
  "payload w (c\<lparr>buf := b\<rparr>) = payload w c" "payload w (c\<lparr>done_c := x\<rparr>) = payload w c"
  by (simp_all add: payload_def get_request_def)

lemma unread_map_update:
  assumes "c < length cs" and "unread w c' = unread w (cs ! c) \<or> c \<notin> set rs"
  shows "map (\<lambda>x. unread w (cs[c := c'] ! x)) rs = map (\<lambda>x. unread w (cs ! x)) rs"
  using assms by (auto simp: nth_list_update)

lemma faithful_Call_Read:
  assumes "faithful w B d" and "step w k (Call_Read n) d = Some d'"
  shows "faithful w B d'"
  using assms
  by (auto simp: step_def faithful_def once_Do_def received_def split: if_splits consumer.splits)

lemma faithful_Worker_Recv:
  assumes "faithful w B d" and "step w k (Worker_Recv i) d = Some d'"
  shows "faithful w B d'"
  using assms
  by (auto simp: step_def faithful_def worker_at_def received_def
      split: if_splits option.splits worker.splits list.splits dest!: in_set_update)

lemma faithful_Worker_SetErr:
  assumes "faithful w B d" and "step w k (Worker_SetErr i) d = Some d'"
  shows "faithful w B d'"
proof -
  from assms(2) obtain e where i: "i < length (workers d)" and wi: "workers d ! i = Returned e"
    and d': "d' = d\<lparr>err := (if e \<noteq> None then e else downloader.err d),
                  workers := (workers d)[i := AtReadAhead]\<rparr>"
    by (auto simp: step_def worker_at_def split: if_splits option.splits worker.splits)
  from i wi have "Returned e \<in> set (workers d)" by (auto simp: in_set_conv_nth)
  with assms(1) have "e = None" by (cases e) (auto simp: faithful_def)
  with assms(1) show ?thesis
    unfolding d' by (auto simp: faithful_def received_def dest!: in_set_update)
qed

lemma faithful_Worker_ReadAhead:
  assumes "faithful w B d" and "step w k (Worker_ReadAhead i) d = Some d'"
  shows "faithful w B d'"
  using assms
  by (auto simp: step_def faithful_def worker_at_def received_def
      split: if_splits option.splits worker.splits dest!: in_set_update)

lemma faithful_Worker_Download:
  assumes "faithful w B d" and "tidy d" and "step w k (Worker_Download i) d = Some d'"
  shows "faithful w B d'"
proof -
  from assms(3) obtain c where i: "i < length (workers d)" and wi: "workers d ! i = InDownload c"
    by (auto simp: step_def worker_at_def split: if_splits option.splits worker.splits)
  then have "InDownload c \<in> set (workers d)" by (auto simp: in_set_conv_nth)
  with assms(2) have c: "c < length (chunks d)" "fresh (chunks d ! c)"
    by (auto simp: tidy_def)
  with assms(1) have sc: "succeeds w (chunks d ! c)" by (auto simp: faithful_def)
  from Download_succeeds [OF this c(2)] assms(3) i wi
  have d': "d' = d\<lparr>chunks := (chunks d)[c := (chunks d ! c)\<lparr>buf := Some (payload w (chunks d ! c)), done_c := True\<rparr>],
        requests := requests d @ [get_request (chunks d ! c)],
        workers := (workers d)[i := Returned None]\<rparr>"
    by (simp add: step_def worker_at_def split: if_splits)
  have "unread w ((chunks d ! c)\<lparr>buf := Some (payload w (chunks d ! c)), done_c := True\<rparr>) = unread w (chunks d ! c)"
    using c(2) by (simp add: unread_def fresh_def)
  then have un: "map (\<lambda>x. unread w ((chunks d)[c := (chunks d ! c)\<lparr>buf := Some (payload w (chunks d ! c)), done_c := True\<rparr>] ! x)) (r_readers d)
     = map (\<lambda>x. unread w (chunks d ! x)) (r_readers d)"
    using c(1) by (intro unread_map_update) auto
  from assms(1) sc show ?thesis
    unfolding d' by (auto simp: faithful_def received_def un dest!: in_set_update)
qed

lemma faithful_Reader_Iter:
  assumes "faithful w B d" and "tidy d" and "step w k Reader_Iter d = Some d'"
  shows "faithful w B d'"
proof -
  have err: "chunk.err (chunks d ! c) = None" if "c \<in> set (r_readers d)" for c
    using assms(2) that by (auto simp: tidy_def)
  from assms(3) obtain n where n: "consumer d = InRead n"
    by (auto elim: Reader_Iter_step)
  show ?thesis
  proof (cases rule: multi_iter_cases [of d n])
    case Empty
    with assms n show ?thesis
      by (auto simp: step_def faithful_def received_def split: if_splits)
  next
    case (Wait c rest)
    with assms n show ?thesis by (auto simp: step_def split: if_splits)
  next
    case (Err c rest e)
    with err [of c] show ?thesis by simp
  next
    case (NilBuf c rest)
    with assms(2) show ?thesis by (auto simp: tidy_def)
  next
    case (Full c rest)
    with assms n show ?thesis by (auto simp: step_def split: if_splits)
  next
    case (Drained c rest ra')
    with assms(3) n have d': "d' = d\<lparr>chunks := (chunks d)[c := (chunks d ! c)\<lparr>buf := None\<rparr>],
                     readAhead := ra', r_readers := rest\<rparr>"
      by (simp add: step_def split: if_splits)
    from assms(2) Drained(1) have c: "c < length (chunks d)" "c \<notin> set rest"
      by (auto simp: tidy_def)
    then have un: "map (\<lambda>x. unread w ((chunks d)[c := (chunks d ! c)\<lparr>buf := None\<rparr>] ! x)) rest
        = map (\<lambda>x. unread w (chunks d ! x)) rest"
      by (intro unread_map_update) auto
    have "unread w (chunks d ! c) = []"
      using Drained by (simp add: unread_def)
    with assms(1) Drained(1) c show ?thesis
      unfolding d' by (auto simp: faithful_def received_def un dest!: in_set_update)
  next
    case (Bytes c rest b)
    with assms(3) n have d': "d' = d\<lparr>chunks := (chunks d)[c := (chunks d ! c)\<lparr>buf := Some (drop n b)\<rparr>],
                   readAhead := readAhead d, r_readers := c # rest,
                   returns := returns d @ [(take n b, None)], consumer := Ready\<rparr>"
      by (simp add: step_def split: if_splits)
    from assms(2) Bytes(1) have c: "c < length (chunks d)" "c \<notin> set rest"
      by (auto simp: tidy_def)
    then have un: "map (\<lambda>x. unread w ((chunks d)[c := (chunks d ! c)\<lparr>buf := Some (drop n b)\<rparr>] ! x)) rest
        = map (\<lambda>x. unread w (chunks d ! x)) rest"
      by (intro unread_map_update) auto
    have "unread w (chunks d ! c) = b"
      using Bytes by (simp add: unread_def)
    moreover have "unread w ((chunks d ! c)\<lparr>buf := Some (drop n b)\<rparr>) = drop n b"
      using Bytes by (simp add: unread_def)
    ultimately show ?thesis
      using assms(1) Bytes(1) c
      unfolding d' by (auto simp: faithful_def received_def un dest!: in_set_update)
  qed
qed

lemma faithful_step:
  assumes "faithful w B d" and "tidy d" and "step w k ev d = Some d'"
  shows "faithful w B d'"
  using assms
  by (cases ev)
    (blast intro: faithful_Call_Read faithful_Reader_Iter faithful_Worker_Recv
       faithful_Worker_Download faithful_Worker_SetErr faithful_Worker_ReadAhead)+

lemma faithful_new:
  assumes "\<forall>rg \<in> set rs. succeeds w (new_chunk u rg)"
  shows "faithful w (concat (map (\<lambda>rg. payload w (new_chunk u rg)) rs))
           (new_downloader k (map (new_chunk u) rs))"
proof -
  have "map (\<lambda>c. unread w (map (new_chunk u) rs ! c)) [0..<length rs]
      = map (\<lambda>rg. payload w (new_chunk u rg)) rs"
    by (rule nth_equalityI) (auto simp: unread_def new_chunk_def)
  with assms show ?thesis
    by (auto simp: faithful_def new_downloader_def received_def)
qed

lemma faithful_run:
  assumes "run w k evs (new_downloader k (map (new_chunk u) rs)) = Some d"
    and "\<forall>rg \<in> set rs. succeeds w (new_chunk u rg)"
  shows "faithful w (concat (map (\<lambda>rg. payload w (new_chunk u rg)) rs)) d"
proof -
  let ?B = "concat (map (\<lambda>rg. payload w (new_chunk u rg)) rs)"
  have "tidy d \<and> faithful w ?B d"
  proof (rule run_invariant [where P = "\<lambda>d. tidy d \<and> faithful w ?B d", OF _ _ assms(1)])
    show "tidy (new_downloader k (map (new_chunk u) rs)) \<and>
        faithful w ?B (new_downloader k (map (new_chunk u) rs))"
      using tidy_new faithful_new [OF assms(2)] by blast
  next
    fix ev d d'
    assume "tidy d \<and> faithful w ?B d" and "step w k ev d = Some d'"
    then show "tidy d' \<and> faithful w ?B d'"
      using tidy_step faithful_step by blast
  qed
  then show ?thesis ..
qed

subsection \<open>Progress\<close>

lemma orderedI:
  assumes "r_readers d = [drained d..<length (chunks d)]"
    and "chunks_ch d = [claimed d..<length (chunks d)]"
    and "length (chunks_ch d) \<le> length (r_readers d)"
    and "length (r_readers d) \<le> length (chunks d)"
    and "length (r_readers d) + held (readAhead d) = length (chunks_ch d) + busy d"
    and "\<And>c. c < length (chunks d) \<Longrightarrow> \<not> done_c (chunks d ! c) \<Longrightarrow>
        c \<in> set (chunks_ch d) \<or> InDownload c \<in> set (workers d)"
  shows "ordered d"
  unfolding ordered_def using assms by blast

lemma ordered_readers: "ordered d \<Longrightarrow> r_readers d = [drained d..<length (chunks d)]"
  and ordered_chunks_ch: "ordered d \<Longrightarrow> chunks_ch d = [claimed d..<length (chunks d)]"
  and ordered_le: "ordered d \<Longrightarrow> length (chunks_ch d) \<le> length (r_readers d)"
  and ordered_le_chunks: "ordered d \<Longrightarrow> length (r_readers d) \<le> length (chunks d)"
  and ordered_count: "ordered d \<Longrightarrow>
     length (r_readers d) + held (readAhead d) = length (chunks_ch d) + busy d"
  and ordered_owner: "ordered d \<Longrightarrow> c < length (chunks d) \<Longrightarrow> \<not> done_c (chunks d ! c) \<Longrightarrow>
     c \<in> set (chunks_ch d) \<or> InDownload c \<in> set (workers d)"
  unfolding ordered_def by blast+

lemma set_update_keep: "y \<in> set ws \<Longrightarrow> ws ! i \<noteq> y \<Longrightarrow> y \<in> set (ws[i := z])"
  by (metis in_set_conv_nth length_list_update nth_list_update_neq)

lemma upt_eq_Cons: "[j..<n] = c # rest \<Longrightarrow> c = j \<and> rest = [Suc j..<n] \<and> j < n"
  by (cases "j < n") (auto simp: upt_conv_Cons)

lemma ordered_new: "ordered (new_downloader k (map (new_chunk u) rs))"
  by (simp add: ordered_def new_downloader_def drained_def claimed_def busy_def new_chunk_def)

lemma ordered_Call_Read:
  assumes "ordered d" and "started k d" and "step w k (Call_Read n) d = Some d'"
  shows "ordered d'"
proof -
  from assms(3) have "d' = d\<lparr>returns := returns d @ [([], downloader.err d)]\<rparr> \<or>
      d' = (once_Do k d)\<lparr>consumer := InRead n\<rparr>"
    by (auto simp: step_def split: if_splits consumer.splits)
  moreover have "ordered (d\<lparr>returns := returns d @ [([], downloader.err d)]\<rparr>)"
    using assms(1) by (simp add: ordered_def drained_def claimed_def busy_def)
  moreover have "ordered ((once_Do k d)\<lparr>consumer := InRead n\<rparr>)"
  proof (cases "once d")
    case True
    with assms(1) show ?thesis
      by (simp add: ordered_def drained_def claimed_def busy_def once_Do_def)
  next
    case False
    with assms(2) have "workers d = []" by (simp add: started_def)
    with False assms(1) show ?thesis
      by (simp add: ordered_def drained_def claimed_def busy_def once_Do_def)
  qed
  ultimately show ?thesis by auto
qed

lemma ordered_Worker_Recv:
  assumes "ordered d" and "started k d" and "step w k (Worker_Recv i) d = Some d'"
  shows "ordered d'"
proof -
  from assms(3) have i: "i < length (workers d)" and wi: "workers d ! i = AtRange"
    by (auto simp: step_def worker_at_def split: if_splits option.splits worker.splits)
  from assms(2,3) i wi obtain c rest where ch: "chunks_ch d = c # rest"
    and d': "d' = d\<lparr>chunks_ch := rest, workers := (workers d)[i := InDownload c]\<rparr>"
    by (auto simp: step_def worker_at_def started_def split: if_splits list.splits)
  from ordered_chunks_ch [OF assms(1)] ch
  have up: "[claimed d..<length (chunks d)] = c # rest" by simp
  from upt_eq_Cons [OF up] have c: "c = claimed d" "rest = [Suc (claimed d)..<length (chunks d)]"
    "claimed d < length (chunks d)" by blast+
  have len: "length (chunks_ch d) = Suc (length rest)" using ch by simp
  have le: "length (chunks_ch d) \<le> length (chunks d)"
    using ordered_le [OF assms(1)] ordered_le_chunks [OF assms(1)] by simp
  have cl: "claimed d' = Suc (claimed d)"
    using le len by (simp add: d' claimed_def)
  have b: "busy d' = Suc (busy d)"
    using i wi by (simp add: d' busy_def busy_inc)
  have keep: "InDownload x \<in> set (workers d) \<Longrightarrow> InDownload x \<in> set ((workers d)[i := InDownload c])" for x
    using wi by (intro set_update_keep) auto
  have new: "InDownload c \<in> set ((workers d)[i := InDownload c])"
    using i by (simp add: set_update_memI)
  have dr: "drained d' = drained d" by (simp add: d' drained_def)
  have rs: "r_readers d' = r_readers d" "chunks d' = chunks d" "readAhead d' = readAhead d"
    "chunks_ch d' = rest" "workers d' = (workers d)[i := InDownload c]"
    by (simp_all add: d')
  show ?thesis
  proof (rule orderedI)
    show "r_readers d' = [drained d'..<length (chunks d')]"
      unfolding rs dr by (rule ordered_readers [OF assms(1)])
    show "chunks_ch d' = [claimed d'..<length (chunks d')]"
      unfolding rs cl by (rule c(2))
    show "length (chunks_ch d') \<le> length (r_readers d')"
      unfolding rs using ordered_le [OF assms(1)] len by simp
    show "length (r_readers d') \<le> length (chunks d')"
      unfolding rs by (rule ordered_le_chunks [OF assms(1)])
    show "length (r_readers d') + held (readAhead d') = length (chunks_ch d') + busy d'"
      unfolding rs b using ordered_count [OF assms(1)] len by simp
  next
    fix x assume "x < length (chunks d')" and "\<not> done_c (chunks d' ! x)"
    then have "x \<in> set (chunks_ch d) \<or> InDownload x \<in> set (workers d)"
      unfolding rs by (rule ordered_owner [OF assms(1)])
    with ch keep [of x] new show "x \<in> set (chunks_ch d') \<or> InDownload x \<in> set (workers d')"
      unfolding rs by auto
  qed
qed

lemma ordered_Worker_Download:
  assumes "ordered d" and "tidy d" and "step w k (Worker_Download i) d = Some d'"
  shows "ordered d'"
proof -
  from assms(3) obtain c where i: "i < length (workers d)" and wi: "workers d ! i = InDownload c"
    by (auto simp: step_def worker_at_def split: if_splits option.splits worker.splits)
  then have "InDownload c \<in> set (workers d)" by (auto simp: in_set_conv_nth)
  with assms(2) have c: "c < length (chunks d)" "fresh (chunks d ! c)"
    by (auto simp: tidy_def)
  from Download_fresh [OF c(2), of w] obtain c' e rq where
    dl: "Download w (chunks d ! c) = Done (c', e, rq)" and c': "done_c c'"
    by blast
  from assms(3) i wi dl have d': "d' = d\<lparr>chunks := (chunks d)[c := c'], requests := requests d @ rq,
                       workers := (workers d)[i := Returned e]\<rparr>"
    by (simp add: step_def worker_at_def split: if_splits)
  have b: "busy d' = busy d"
    using i wi by (simp add: d' busy_def busy_same)
  have dr: "drained d' = drained d" "claimed d' = claimed d"
    by (simp_all add: d' drained_def claimed_def)
  have rs: "r_readers d' = r_readers d" "length (chunks d') = length (chunks d)"
    "readAhead d' = readAhead d" "chunks_ch d' = chunks_ch d"
    "workers d' = (workers d)[i := Returned e]" "chunks d' = (chunks d)[c := c']"
    by (simp_all add: d')
  show ?thesis
  proof (rule orderedI)
    show "r_readers d' = [drained d'..<length (chunks d')]"
      unfolding rs(1-5) dr by (rule ordered_readers [OF assms(1)])
    show "chunks_ch d' = [claimed d'..<length (chunks d')]"
      unfolding rs(1-5) dr by (rule ordered_chunks_ch [OF assms(1)])
    show "length (chunks_ch d') \<le> length (r_readers d')"
      unfolding rs(1-5) by (rule ordered_le [OF assms(1)])
    show "length (r_readers d') \<le> length (chunks d')"
      unfolding rs(1-5) by (rule ordered_le_chunks [OF assms(1)])
    show "length (r_readers d') + held (readAhead d') = length (chunks_ch d') + busy d'"
      unfolding rs(1-5) b by (rule ordered_count [OF assms(1)])
  next
    fix x assume x: "x < length (chunks d')" and nd: "\<not> done_c (chunks d' ! x)"
    from x have x': "x < length (chunks d)" by (simp add: rs)
    from nd c' x' have ne: "x \<noteq> c" by (auto simp: rs)
    with nd have "\<not> done_c (chunks d ! x)" by (simp add: rs)
    from ordered_owner [OF assms(1) x' this]
    have "x \<in> set (chunks_ch d) \<or> InDownload x \<in> set (workers d)" .
    moreover have "InDownload x \<in> set ((workers d)[i := Returned e])"
      if "InDownload x \<in> set (workers d)"
      using that wi ne by (intro set_update_keep) auto
    ultimately show "x \<in> set (chunks_ch d') \<or> InDownload x \<in> set (workers d')"
      unfolding rs by blast
  qed
qed

lemma ordered_Worker_SetErr:
  assumes "ordered d" and "step w k (Worker_SetErr i) d = Some d'"
  shows "ordered d'"
proof -
  from assms(2) obtain e where i: "i < length (workers d)" and wi: "workers d ! i = Returned e"
    and d': "d' = d\<lparr>err := (if e \<noteq> None then e else downloader.err d),
                  workers := (workers d)[i := AtReadAhead]\<rparr>"
    by (auto simp: step_def worker_at_def split: if_splits option.splits worker.splits)
  have b: "busy d' = busy d"
    using i wi by (simp add: d' busy_def busy_same)
  have dr: "drained d' = drained d" "claimed d' = claimed d"
    by (simp_all add: d' drained_def claimed_def)
  have rs: "r_readers d' = r_readers d" "chunks d' = chunks d"
    "readAhead d' = readAhead d" "chunks_ch d' = chunks_ch d"
    "workers d' = (workers d)[i := AtReadAhead]"
    by (simp_all add: d')
  show ?thesis
  proof (rule orderedI)
    show "r_readers d' = [drained d'..<length (chunks d')]"
      unfolding rs dr by (rule ordered_readers [OF assms(1)])
    show "chunks_ch d' = [claimed d'..<length (chunks d')]"
      unfolding rs dr by (rule ordered_chunks_ch [OF assms(1)])
    show "length (chunks_ch d') \<le> length (r_readers d')"
      unfolding rs by (rule ordered_le [OF assms(1)])
    show "length (r_readers d') \<le> length (chunks d')"
      unfolding rs by (rule ordered_le_chunks [OF assms(1)])
    show "length (r_readers d') + held (readAhead d') = length (chunks_ch d') + busy d'"
      unfolding rs b by (rule ordered_count [OF assms(1)])
  next
    fix x assume "x < length (chunks d')" and "\<not> done_c (chunks d' ! x)"
    then have "x \<in> set (chunks_ch d) \<or> InDownload x \<in> set (workers d)"
      unfolding rs by (rule ordered_owner [OF assms(1)])
    moreover have "InDownload x \<in> set ((workers d)[i := AtReadAhead])"
      if "InDownload x \<in> set (workers d)"
      using that wi by (intro set_update_keep) auto
    ultimately show "x \<in> set (chunks_ch d') \<or> InDownload x \<in> set (workers d')"
      unfolding rs by blast
  qed
qed

lemma ordered_Worker_ReadAhead:
  assumes "ordered d" and "step w k (Worker_ReadAhead i) d = Some d'"
  shows "ordered d'"
proof -
  from assms(2) have i: "i < length (workers d)" and wi: "workers d ! i = AtReadAhead"
    and h: "0 < held (readAhead d)"
    and d': "d' = d\<lparr>readAhead := (readAhead d)\<lparr>held := held (readAhead d) - 1\<rparr>,
                  workers := (workers d)[i := AtRange]\<rparr>"
    by (auto simp: step_def worker_at_def chan_recv_def split: if_splits option.splits worker.splits)
  have b: "Suc (busy d') = busy d"
    using i wi by (simp add: d' busy_def busy_dec)
  have dr: "drained d' = drained d" "claimed d' = claimed d"
    by (simp_all add: d' drained_def claimed_def)
  have rs: "r_readers d' = r_readers d" "chunks d' = chunks d"
    "held (readAhead d') = held (readAhead d) - 1" "chunks_ch d' = chunks_ch d"
    "workers d' = (workers d)[i := AtRange]"
    by (simp_all add: d')
  show ?thesis
  proof (rule orderedI)
    show "r_readers d' = [drained d'..<length (chunks d')]"
      unfolding rs dr by (rule ordered_readers [OF assms(1)])
    show "chunks_ch d' = [claimed d'..<length (chunks d')]"
      unfolding rs dr by (rule ordered_chunks_ch [OF assms(1)])
    show "length (chunks_ch d') \<le> length (r_readers d')"
      unfolding rs by (rule ordered_le [OF assms(1)])
    show "length (r_readers d') \<le> length (chunks d')"
      unfolding rs by (rule ordered_le_chunks [OF assms(1)])
    show "length (r_readers d') + held (readAhead d') = length (chunks_ch d') + busy d'"
      unfolding rs using ordered_count [OF assms(1)] b h by simp
  next
    fix x assume "x < length (chunks d')" and "\<not> done_c (chunks d' ! x)"
    then have "x \<in> set (chunks_ch d) \<or> InDownload x \<in> set (workers d)"
      unfolding rs by (rule ordered_owner [OF assms(1)])
    moreover have "InDownload x \<in> set ((workers d)[i := AtRange])"
      if "InDownload x \<in> set (workers d)"
      using that wi by (intro set_update_keep) auto
    ultimately show "x \<in> set (chunks_ch d') \<or> InDownload x \<in> set (workers d')"
      unfolding rs by blast
  qed
qed

lemma ordered_Reader_Iter:
  assumes "ordered d" and "tidy d" and "step w k Reader_Iter d = Some d'"
  shows "ordered d'"
proof -
  have err: "chunk.err (chunks d ! c) = None" if "c \<in> set (r_readers d)" for c
    using assms(2) that by (auto simp: tidy_def)
  from assms(3) obtain n where n: "consumer d = InRead n"
    by (auto elim: Reader_Iter_step)
  show ?thesis
  proof (cases rule: multi_iter_cases [of d n])
    case Empty
    with assms(3) n have "d' = d\<lparr>returns := returns d @ [([], Some EOF)], consumer := Ready\<rparr>"
      by (simp add: step_def split: if_splits)
    with assms(1) show ?thesis
      by (simp add: ordered_def drained_def claimed_def busy_def)
  next
    case (Wait c rest)
    with assms n show ?thesis by (auto simp: step_def split: if_splits)
  next
    case (Err c rest e)
    with err [of c] show ?thesis by simp
  next
    case (NilBuf c rest)
    with assms(2) show ?thesis by (auto simp: tidy_def)
  next
    case (Full c rest)
    with assms n show ?thesis by (auto simp: step_def split: if_splits)
  next
    case (Drained c rest ra')
    with assms(3) n have d': "d' = d\<lparr>chunks := (chunks d)[c := (chunks d ! c)\<lparr>buf := None\<rparr>],
                     readAhead := ra', r_readers := rest\<rparr>"
      by (simp add: step_def split: if_splits)
    from Drained(6) have h: "held ra' = Suc (held (readAhead d))"
      by (auto simp: chan_send_def split: if_splits)
    from ordered_readers [OF assms(1)] Drained(1)
    have up: "[drained d..<length (chunks d)] = c # rest" by simp
    from upt_eq_Cons [OF up] have c: "c = drained d" "rest = [Suc (drained d)..<length (chunks d)]"
      "drained d < length (chunks d)" by blast+
    have len: "length (r_readers d) = Suc (length rest)" using Drained(1) by simp
    have dr: "drained d' = Suc (drained d)"
      using ordered_le_chunks [OF assms(1)] len by (simp add: d' drained_def)
    have cl: "claimed d' = claimed d" by (simp add: d' claimed_def)
    have b: "busy d' = busy d" by (simp add: d' busy_def)
    have rs: "r_readers d' = rest" "length (chunks d') = length (chunks d)"
      "held (readAhead d') = Suc (held (readAhead d))" "chunks_ch d' = chunks_ch d"
      "workers d' = workers d" "chunks d' = (chunks d)[c := (chunks d ! c)\<lparr>buf := None\<rparr>]"
      by (simp_all add: d' h)
    have "c \<notin> set (chunks_ch d)"
      using assms(2) Drained(2) by (auto simp: tidy_def fresh_def)
    with ordered_chunks_ch [OF assms(1)] c(1,3) have "drained d < claimed d"
      by (metis atLeastLessThan_iff not_le_imp_less set_upt)
    then have lt: "length (chunks_ch d) < length (r_readers d)"
      using ordered_le_chunks [OF assms(1)] c(3) by (simp add: drained_def claimed_def)
    show ?thesis
    proof (rule orderedI)
      show "r_readers d' = [drained d'..<length (chunks d')]"
        unfolding rs(1-5) dr by (rule c(2))
      show "chunks_ch d' = [claimed d'..<length (chunks d')]"
        unfolding rs(1-5) cl by (rule ordered_chunks_ch [OF assms(1)])
      show "length (chunks_ch d') \<le> length (r_readers d')"
        unfolding rs(1-5) using lt len by simp
      show "length (r_readers d') \<le> length (chunks d')"
        unfolding rs(1-5) using ordered_le_chunks [OF assms(1)] len by simp
      show "length (r_readers d') + held (readAhead d') = length (chunks_ch d') + busy d'"
        unfolding rs(1-5) b using ordered_count [OF assms(1)] len by simp
    next
      fix x assume x: "x < length (chunks d')" and nd: "\<not> done_c (chunks d' ! x)"
      from x have x': "x < length (chunks d)" by (simp add: rs)
      from nd Drained(2) x' have ne: "x \<noteq> c" by (auto simp: rs)
      with nd have "\<not> done_c (chunks d ! x)" by (simp add: rs)
      from ordered_owner [OF assms(1) x' this]
      show "x \<in> set (chunks_ch d') \<or> InDownload x \<in> set (workers d')"
        unfolding rs .
    qed
  next
    case (Bytes c rest b)
    with assms(3) n have d': "d' = d\<lparr>chunks := (chunks d)[c := (chunks d ! c)\<lparr>buf := Some (drop n b)\<rparr>],
                   readAhead := readAhead d, r_readers := c # rest,
                   returns := returns d @ [(take n b, None)], consumer := Ready\<rparr>"
      by (simp add: step_def split: if_splits)
    have dr: "drained d' = drained d" "claimed d' = claimed d" "busy d' = busy d"
      using Bytes(1) by (simp_all add: d' drained_def claimed_def busy_def)
    have rs: "r_readers d' = r_readers d" "length (chunks d') = length (chunks d)"
      "readAhead d' = readAhead d" "chunks_ch d' = chunks_ch d"
      "workers d' = workers d" "chunks d' = (chunks d)[c := (chunks d ! c)\<lparr>buf := Some (drop n b)\<rparr>]"
      using Bytes(1) by (simp_all add: d')
    show ?thesis
    proof (rule orderedI)
      show "r_readers d' = [drained d'..<length (chunks d')]"
        unfolding rs(1-5) dr by (rule ordered_readers [OF assms(1)])
      show "chunks_ch d' = [claimed d'..<length (chunks d')]"
        unfolding rs(1-5) dr by (rule ordered_chunks_ch [OF assms(1)])
      show "length (chunks_ch d') \<le> length (r_readers d')"
        unfolding rs(1-5) by (rule ordered_le [OF assms(1)])
      show "length (r_readers d') \<le> length (chunks d')"
        unfolding rs(1-5) by (rule ordered_le_chunks [OF assms(1)])
      show "length (r_readers d') + held (readAhead d') = length (chunks_ch d') + busy d'"
        unfolding rs(1-5) dr by (rule ordered_count [OF assms(1)])
    next
      fix x assume x: "x < length (chunks d')" and nd: "\<not> done_c (chunks d' ! x)"
      from x have x': "x < length (chunks d)" by (simp add: rs)
      from nd Bytes(2) x' have ne: "x \<noteq> c" by (auto simp: rs)
      with nd have "\<not> done_c (chunks d ! x)" by (simp add: rs)
      from ordered_owner [OF assms(1) x' this]
      show "x \<in> set (chunks_ch d') \<or> InDownload x \<in> set (workers d')"
        unfolding rs .
    qed
  qed
qed

lemma ordered_step:
  assumes "ordered d" and "tidy d" and "started k d" and "step w k ev d = Some d'"
  shows "ordered d'"
  using assms
  by (cases ev)
    (blast intro: ordered_Call_Read ordered_Reader_Iter ordered_Worker_Recv
       ordered_Worker_Download ordered_Worker_SetErr ordered_Worker_ReadAhead)+

lemma ordered_run:
  assumes "run w k evs (new_downloader k (map (new_chunk u) rs)) = Some d"
  shows "ordered d"
proof -
  have "ordered d \<and> tidy d \<and> started k d"
  proof (rule run_invariant [where P = "\<lambda>d. ordered d \<and> tidy d \<and> started k d", OF _ _ assms])
    show "ordered (new_downloader k (map (new_chunk u) rs)) \<and>
        tidy (new_downloader k (map (new_chunk u) rs)) \<and>
        started k (new_downloader k (map (new_chunk u) rs))"
      using ordered_new tidy_new started_new by blast
  next
    fix ev d d'
    assume "ordered d \<and> tidy d \<and> started k d" and "step w k ev d = Some d'"
    then show "ordered d' \<and> tidy d' \<and> started k d'"
      using ordered_step tidy_step started_step by blast
  qed
  then show ?thesis by blast
qed

lemma Download_returns: "Download w c \<noteq> Blocked"
  by (auto simp: Download_def close_done_def Let_def split: option.splits sum.splits)

lemma all_busy:
  assumes "\<forall>i < length ws. ws ! i = AtReadAhead"
  shows "sum_list (map busy1 ws) = length ws"
proof -
  have "map busy1 ws = replicate (length ws) 1"
    using assms by (intro nth_equalityI) auto
  then show ?thesis by (simp add: sum_list_replicate)
qed

lemma worker_can_move:
  assumes "i < length (workers d)" and "workers d ! i \<noteq> AtReadAhead" and "workers d ! i \<noteq> Exited"
    and "chunks_ch d \<noteq> []" and "\<not> panicked d"
  shows "\<exists>ev. (\<forall>m. ev \<noteq> Call_Read m) \<and> step w k ev d \<noteq> None"
proof (cases "workers d ! i")
  case AtRange
  with assms have "step w k (Worker_Recv i) d \<noteq> None"
    by (auto simp: step_def worker_at_def split: list.splits)
  then show ?thesis by blast
next
  case (InDownload c)
  with assms Download_returns [of w "chunks d ! c"] have "step w k (Worker_Download i) d \<noteq> None"
    by (auto simp: step_def worker_at_def split: outcome.splits)
  then show ?thesis by blast
next
  case (Returned e)
  with assms have "step w k (Worker_SetErr i) d \<noteq> None"
    by (auto simp: step_def worker_at_def)
  then show ?thesis by blast
next
  case AtReadAhead
  with assms show ?thesis by simp
next
  case Exited
  with assms show ?thesis by simp
qed

lemma consumer_moves:
  assumes ti: "tidy d" and ord: "ordered d" and st: "started k d"
    and k: "0 < k" and n: "consumer d = InRead n"
  shows "\<exists>ev. (\<forall>m. ev \<noteq> Call_Read m) \<and> step w k ev d \<noteq> None"
proof -
  from ti have np: "\<not> panicked d" by (simp add: tidy_def)
  from st n have len: "length (workers d) = k" and cap: "cap (readAhead d) = k"
    and nex: "Exited \<notin> set (workers d)"
    by (auto simp: started_def split: if_splits)
  have reader: "step w k Reader_Iter d \<noteq> None"
    if "\<exists>d1. multi_iter d n = IContinue d1 \<or> (\<exists>p e. multi_iter d n = IReturn d1 p e)"
    using that n np by (auto simp: step_def)
  have err: "chunk.err (chunks d ! c) = None" if "c \<in> set (r_readers d)" for c
    using ti that by (auto simp: tidy_def)
  show ?thesis
  proof (cases rule: multi_iter_cases [of d n])
    case Empty
    then show ?thesis using reader by blast
  next
    case (Wait c rest)
    then have cin: "c \<in> set (r_readers d)" by simp
    with ti have c: "c < length (chunks d)" by (auto simp: tidy_def)
    from ordered_owner [OF ord c Wait(2)] show ?thesis
    proof
      assume "InDownload c \<in> set (workers d)"
      then obtain i where "i < length (workers d)" "workers d ! i = InDownload c"
        by (auto simp: in_set_conv_nth)
      with Download_returns [of w "chunks d ! c"] np
      have "step w k (Worker_Download i) d \<noteq> None"
        by (auto simp: step_def worker_at_def split: outcome.splits)
      then show ?thesis by blast
    next
      assume cch: "c \<in> set (chunks_ch d)"
      then have ne: "chunks_ch d \<noteq> []" by auto
      show ?thesis
      proof (cases "\<forall>i < length (workers d). workers d ! i = AtReadAhead")
        case False
        then obtain i where i: "i < length (workers d)" "workers d ! i \<noteq> AtReadAhead" by blast
        with nex have "workers d ! i \<noteq> Exited" by (metis nth_mem)
        from worker_can_move [OF i this ne np] show ?thesis .
      next
        case True
        then have b: "busy d = k" using len by (simp add: busy_def all_busy)
        from ordered_readers [OF ord] Wait(1)
        have "[drained d..<length (chunks d)] = c # rest" by simp
        from upt_eq_Cons [OF this] have cd: "c = drained d" by blast
        from cch ordered_chunks_ch [OF ord] have "claimed d \<le> c"
          by (metis atLeastLessThan_iff set_upt)
        with cd c have "length (r_readers d) \<le> length (chunks_ch d)"
          using ordered_le_chunks [OF ord] by (simp add: drained_def claimed_def)
        with ordered_count [OF ord] b ordered_le [OF ord] k have "0 < held (readAhead d)"
          by simp
        moreover from True k len have "workers d ! 0 = AtReadAhead" by simp
        ultimately have "step w k (Worker_ReadAhead 0) d \<noteq> None"
          using np k len by (simp add: step_def worker_at_def chan_recv_def)
        then show ?thesis by blast
      qed
    qed
  next
    case (Err c rest e)
    with err [of c] show ?thesis by simp
  next
    case (NilBuf c rest)
    with ti show ?thesis by (auto simp: tidy_def)
  next
    case (Full c rest)
    then have cin: "c \<in> set (r_readers d)" by simp
    with ti have c: "c < length (chunks d)" by (auto simp: tidy_def)
    from Full(6) cap have "k \<le> held (readAhead d)"
      by (auto simp: chan_send_def split: if_splits)
    with ordered_count [OF ord] busy_bound [OF st] ordered_le [OF ord]
    have eq: "length (r_readers d) = length (chunks_ch d)" by simp
    from ordered_readers [OF ord] Full(1)
    have "[drained d..<length (chunks d)] = c # rest" by simp
    from upt_eq_Cons [OF this] have cd: "c = drained d" by blast
    with eq have "c = claimed d" by (simp add: drained_def claimed_def)
    with c ordered_chunks_ch [OF ord] have "c \<in> set (chunks_ch d)"
      by (metis atLeastLessThan_iff order_refl set_upt)
    with ti have "fresh (chunks d ! c)" by (auto simp: tidy_def)
    with Full(2) show ?thesis by (simp add: fresh_def)
  next
    case (Drained c rest ra')
    then show ?thesis using reader by blast
  next
    case (Bytes c rest b)
    then show ?thesis using reader by blast
  qed
qed

text \<open>
  While the consumer is in a \<^verbatim>\<open>Read\<close>, some goroutine can act: the downloader does not
  deadlock, whatever the server answers. In particular the consumer's send on
  \<^verbatim>\<open>d.readAhead\<close> never blocks.
\<close>

lemma consumer_never_stuck:
  assumes "run w k evs (new_downloader k (map (new_chunk u) rs)) = Some d"
    and "0 < k" and "consumer d = InRead n"
  shows "\<exists>ev. (\<forall>m. ev \<noteq> Call_Read m) \<and> step w k ev d \<noteq> None"
  using consumer_moves [OF tidy_run [OF assms(1)] ordered_run [OF assms(1)]
      started_run [OF assms(1)] assms(2,3)] .

lemma phase_update:
  "i < length ws \<Longrightarrow>
   sum_list (map phase (ws[i := x])) + phase (ws ! i) = sum_list (map phase ws) + phase x"
proof (induction ws arbitrary: i)
  case Nil
  then show ?case by simp
next
  case (Cons a ws)
  show ?case
  proof (cases i)
    case 0
    then show ?thesis by simp
  next
    case (Suc j)
    with Cons.prems have "j < length ws" by simp
    from Cons.IH [OF this] Suc show ?thesis by simp
  qed
qed

lemma run_append:
  "run w k (evs @ evs') d = (case run w k evs d of None \<Rightarrow> None | Some d1 \<Rightarrow> run w k evs' d1)"
  by (induction evs arbitrary: d) (auto split: option.splits)

lemma received_le:
  assumes "faithful w B d"
  shows "length (received d) \<le> length B"
proof -
  from assms have "received d @ concat (map (\<lambda>c. unread w (chunks d ! c)) (r_readers d)) = B"
    by (simp add: faithful_def)
  then have "length B = length (received d) +
      length (concat (map (\<lambda>c. unread w (chunks d ! c)) (r_readers d)))"
    by (metis length_append)
  then show ?thesis by simp
qed

lemma todo_worker:
  assumes "i < length (workers d)" and "phase x < phase (workers d ! i)"
  shows "todo B (d\<lparr>workers := (workers d)[i := x]\<rparr>) < todo B d"
  using phase_update [OF assms(1), of x] assms(2)
  by (simp add: todo_def received_def)

lemma todo_step:
  assumes "tidy d" and "faithful w B d" and "started k d" and "step w k ev d = Some d'"
    and "\<forall>m. ev \<noteq> Call_Read m"
  shows "todo B d' < todo B d \<or> ([], Some EOF) \<in> set (returns d')"
proof (cases ev)
  case (Call_Read m)
  with assms(5) show ?thesis by simp
next
  case Reader_Iter
  have err: "chunk.err (chunks d ! c) = None" if "c \<in> set (r_readers d)" for c
    using assms(1) that by (auto simp: tidy_def)
  from assms(4) Reader_Iter obtain n where n: "consumer d = InRead n"
    by (auto elim: Reader_Iter_step)
  from assms(4) Reader_Iter have st: "step w k Reader_Iter d = Some d'" by simp
  show ?thesis
  proof (cases rule: multi_iter_cases [of d n])
    case Empty
    with st n have "d' = d\<lparr>returns := returns d @ [([], Some EOF)], consumer := Ready\<rparr>"
      by (simp add: step_def split: if_splits)
    then show ?thesis by simp
  next
    case (Wait c rest)
    with st n show ?thesis by (auto simp: step_def split: if_splits)
  next
    case (Err c rest e)
    with err [of c] show ?thesis by simp
  next
    case (NilBuf c rest)
    with assms(1) show ?thesis by (auto simp: tidy_def)
  next
    case (Full c rest)
    with st n show ?thesis by (auto simp: step_def split: if_splits)
  next
    case (Drained c rest ra')
    with st n have d': "d' = d\<lparr>chunks := (chunks d)[c := (chunks d ! c)\<lparr>buf := None\<rparr>],
                     readAhead := ra', r_readers := rest\<rparr>"
      by (simp add: step_def split: if_splits)
    with Drained(1) n have "todo B d' < todo B d"
      by (simp add: todo_def received_def)
    then show ?thesis ..
  next
    case (Bytes c rest b)
    with st n have d': "d' = d\<lparr>chunks := (chunks d)[c := (chunks d ! c)\<lparr>buf := Some (drop n b)\<rparr>],
                   readAhead := readAhead d, r_readers := c # rest,
                   returns := returns d @ [(take n b, None)], consumer := Ready\<rparr>"
      by (simp add: step_def split: if_splits)
    from assms(2,1) st have "faithful w B d'" by (rule faithful_Reader_Iter)
    then have le: "length (received d') \<le> length B" by (rule received_le)
    have rec: "length (received d') = length (received d) + min (length b) n"
      by (simp add: d' received_def)
    have comps: "chunks_ch d' = chunks_ch d" "workers d' = workers d"
      "r_readers d' = r_readers d" "consumer d' = Ready"
      by (simp_all add: d' Bytes(1))
    show ?thesis
    proof (cases "n = 0")
      case True
      with n rec have "todo B d' < todo B d"
        unfolding todo_def comps by simp
      then show ?thesis ..
    next
      case False
      with Bytes(5) have "0 < min (length b) n" by simp
      with le rec have "Suc (2 * (length B - length (received d')))
          < 2 * (length B - length (received d))"
        by arith
      with n False have "todo B d' < todo B d"
        unfolding todo_def comps by simp
      then show ?thesis ..
    qed
  qed
next
  case (Worker_Recv i)
  with assms(4) have i: "i < length (workers d)" and wi: "workers d ! i = AtRange"
    by (auto simp: step_def worker_at_def split: if_splits option.splits worker.splits)
  from assms(3,4) Worker_Recv i wi obtain c rest where ch: "chunks_ch d = c # rest"
    and d': "d' = d\<lparr>chunks_ch := rest, workers := (workers d)[i := InDownload c]\<rparr>"
    by (auto simp: step_def worker_at_def started_def split: if_splits list.splits)
  from phase_update [OF i, of "InDownload c"] wi ch have "todo B d' < todo B d"
    by (simp add: todo_def d' received_def)
  then show ?thesis ..
next
  case (Worker_Download i)
  with assms(4) obtain c where i: "i < length (workers d)" and wi: "workers d ! i = InDownload c"
    by (auto simp: step_def worker_at_def split: if_splits option.splits worker.splits)
  then have "InDownload c \<in> set (workers d)" by (auto simp: in_set_conv_nth)
  with assms(1) have c: "fresh (chunks d ! c)" by (auto simp: tidy_def)
  from Download_fresh [OF c, of w] obtain c' e rq where
    dl: "Download w (chunks d ! c) = Done (c', e, rq)" by blast
  from assms(4) Worker_Download i wi dl
  have d': "d' = d\<lparr>chunks := (chunks d)[c := c'], requests := requests d @ rq,
                       workers := (workers d)[i := Returned e]\<rparr>"
    by (simp add: step_def worker_at_def split: if_splits)
  from phase_update [OF i, of "Returned e"] wi have "todo B d' < todo B d"
    by (simp add: todo_def d' received_def)
  then show ?thesis ..
next
  case (Worker_SetErr i)
  with assms(4) obtain e where i: "i < length (workers d)" and wi: "workers d ! i = Returned e"
    and d': "d' = d\<lparr>err := (if e \<noteq> None then e else downloader.err d),
                  workers := (workers d)[i := AtReadAhead]\<rparr>"
    by (auto simp: step_def worker_at_def split: if_splits option.splits worker.splits)
  from phase_update [OF i, of AtReadAhead] wi have "todo B d' < todo B d"
    by (simp add: todo_def d' received_def)
  then show ?thesis ..
next
  case (Worker_ReadAhead i)
  with assms(4) obtain ra' where i: "i < length (workers d)" and wi: "workers d ! i = AtReadAhead"
    and d': "d' = d\<lparr>readAhead := ra', workers := (workers d)[i := AtRange]\<rparr>"
    by (auto simp: step_def worker_at_def split: if_splits option.splits worker.splits)
  from phase_update [OF i, of AtRange] wi have "todo B d' < todo B d"
    by (simp add: todo_def d' received_def)
  then show ?thesis ..
qed


lemma can_finish:
  assumes "tidy d" and "ordered d" and "started k d" and "faithful w B d" and "0 < k"
  shows "\<exists>evs d'. run w k evs d = Some d' \<and> ([], Some EOF) \<in> set (returns d')"
  using assms(1-4)
proof (induction "todo B d" arbitrary: d rule: less_induct)
  case less
  have inv: "tidy d' \<and> ordered d' \<and> started k d' \<and> faithful w B d'"
    if "step w k ev d = Some d'" for ev d'
    using tidy_step [OF less.prems(1) that] ordered_step [OF less.prems(2,1,3) that]
      started_step [OF less.prems(3) that] faithful_step [OF less.prems(4,1) that]
    by simp
  have next_step: ?case
    if ev: "step w k ev d = Some d1" and m: "todo B d1 < todo B d \<or> ([], Some EOF) \<in> set (returns d1)"
    for ev d1
    using m
  proof
    assume "todo B d1 < todo B d"
    from less.hyps [OF this] inv [OF ev]
    obtain evs d' where "run w k evs d1 = Some d'" "([], Some EOF) \<in> set (returns d')"
      by blast
    with ev have "run w k (ev # evs) d = Some d'" by simp
    with \<open>([], Some EOF) \<in> set (returns d')\<close> show ?thesis by blast
  next
    assume "([], Some EOF) \<in> set (returns d1)"
    moreover from ev have "run w k [ev] d = Some d1" by simp
    ultimately show ?thesis by blast
  qed
  show ?case
  proof (cases "consumer d")
    case Ready
    from less.prems have "\<not> panicked d" "downloader.err d = None"
      by (auto simp: tidy_def faithful_def)
    with Ready have ev: "step w k (Call_Read 1) d = Some ((once_Do k d)\<lparr>consumer := InRead 1\<rparr>)"
      by (simp add: step_def)
    have "sum_list (map phase (workers (once_Do k d))) = sum_list (map phase (workers d))"
      using less.prems(3) by (auto simp: once_Do_def started_def)
    with Ready have "todo B ((once_Do k d)\<lparr>consumer := InRead 1\<rparr>) < todo B d"
      by (simp add: todo_def received_def once_Do_def)
    with ev show ?thesis by (intro next_step) auto
  next
    case (InRead n)
    from consumer_moves [OF less.prems(1-3) assms(5) InRead, of w]
    obtain ev d1 where nc: "\<forall>m. ev \<noteq> Call_Read m" and ev: "step w k ev d = Some d1"
      by auto
    from todo_step [OF less.prems(1,4,3) ev nc] ev show ?thesis
      by (intro next_step) auto
  qed
qed

text \<open>
  C3 (order preservation). For the chunks of any ranges and a server that serves each of
  them, in every state the goroutines can reach, whatever the order of their actions:
  the bytes the consumer has received are a prefix of the payloads concatenated in the
  order of the chunks; the only error a \<^verbatim>\<open>Read\<close> has returned is \<^verbatim>\<open>io.EOF\<close>, and once it has
  been returned the bytes received are exactly that concatenation; nothing has panicked;
  and with at least one worker the run can go on until \<^verbatim>\<open>Read\<close> has returned \<^verbatim>\<open>io.EOF\<close>.
\<close>

theorem order_preservation:
  assumes "run w k evs (new_downloader k (map (new_chunk u) rs)) = Some d"
    and "\<forall>rg \<in> set rs. succeeds w (new_chunk u rg)"
  shows "(\<exists>t. received d @ t = concat (map (\<lambda>rg. payload w (new_chunk u rg)) rs))
       \<and> (\<forall>p e. (p, Some e) \<in> set (returns d) \<longrightarrow>
            e = EOF \<and> received d = concat (map (\<lambda>rg. payload w (new_chunk u rg)) rs))
       \<and> \<not> panicked d
       \<and> (0 < k \<longrightarrow>
            (\<exists>evs' d'. run w k (evs @ evs') (new_downloader k (map (new_chunk u) rs)) = Some d'
               \<and> ([], Some EOF) \<in> set (returns d')
               \<and> received d' = concat (map (\<lambda>rg. payload w (new_chunk u rg)) rs)))"
proof -
  let ?B = "concat (map (\<lambda>rg. payload w (new_chunk u rg)) rs)"
  let ?d0 = "new_downloader k (map (new_chunk u) rs)"
  have safe: "(\<exists>t. received x @ t = ?B)
       \<and> (\<forall>p e. (p, Some e) \<in> set (returns x) \<longrightarrow> e = EOF \<and> received x = ?B)
       \<and> \<not> panicked x"
    if "run w k es ?d0 = Some x" for es x
    using faithful_run [OF that assms(2)] tidy_run [OF that]
    by (auto simp: faithful_def tidy_def)
  have live: "\<exists>evs' d'. run w k (evs @ evs') ?d0 = Some d' \<and>
      ([], Some EOF) \<in> set (returns d') \<and> received d' = ?B" if "0 < k"
  proof -
    from can_finish [OF tidy_run [OF assms(1)] ordered_run [OF assms(1)]
        started_run [OF assms(1)] faithful_run [OF assms] that]
    obtain evs' d' where r: "run w k evs' d = Some d'" and e: "([], Some EOF) \<in> set (returns d')"
      by blast
    from r assms(1) have r': "run w k (evs @ evs') ?d0 = Some d'"
      by (simp add: run_append)
    from safe [OF r'] e have "received d' = ?B" by blast
    with r' e show ?thesis by blast
  qed
  from safe [OF assms(1)] live show ?thesis by blast
qed

theorem order_preservation_witness:
  "\<exists>d. run abc_net 2 abc_events (new_downloader 2 abc_chunks) = Some d
      \<and> ([], Some EOF) \<in> set (returns d)
      \<and> received d = ''AAAAAAAAAABBBBBBBBBBCCCCC''
      \<and> (\<exists>evs' d'. run abc_net 2 (abc_events @ evs') (new_downloader 2 abc_chunks) = Some d'
            \<and> ([], Some EOF) \<in> set (returns d')
            \<and> received d' = ''AAAAAAAAAABBBBBBBBBBCCCCC'')"
proof -
  have ok: "\<forall>rg \<in> set [(0, 9), (10, 19), (20, 29)]. succeeds abc_net (new_chunk ''x'' rg)"
    by (simp add: succeeds_def get_request_def abc_net_def mock_def new_chunk_def abc_def
        partial_content_def)
  have ret: "([], Some EOF) \<in> set (returns abc_final)"
    by (simp add: abc_final_def)
  have B: "concat (map (\<lambda>rg. payload abc_net (new_chunk ''x'' rg)) [(0, 9), (10, 19), (20, 29)])
      = ''AAAAAAAAAABBBBBBBBBBCCCCC''"
    by (simp add: payload_def get_request_def abc_net_def mock_def new_chunk_def abc_def
        partial_content_def)
  note inst = order_preservation [OF abc_run [unfolded abc_chunks_def] ok, unfolded B]
  from inst ret have "received abc_final = ''AAAAAAAAAABBBBBBBBBBCCCCC''"
    by blast
  moreover from inst have "\<exists>evs' d'.
      run abc_net 2 (abc_events @ evs') (new_downloader 2 abc_chunks) = Some d'
      \<and> ([], Some EOF) \<in> set (returns d')
      \<and> received d' = ''AAAAAAAAAABBBBBBBBBBCCCCC''"
    by (simp add: abc_chunks_def)
  ultimately show ?thesis using abc_run ret by blast
qed

subsection \<open>WriteTo\<close>

lemma Read_exhausted:
  assumes "exhausted d"
  shows "Read k d n = Done (once_Do k d, [], Some EOF)" and "exhausted (once_Do k d)"
  using assms
  by (simp_all add: exhausted_def Read_def multi_iter_def once_Do_def)

lemma WriteTo_loop_exhausted:
  assumes "WriteTo_loop wr k n d w acc = Some res"
  shows "\<not> (accepting wr \<and> exhausted d)"
  using assms
proof (induction rule: WriteTo_loop.raw_induct [rotated 1, consumes 1])
  case (1 loop wr k n d w acc res)
  show ?case
  proof
    assume a: "accepting wr \<and> exhausted d"
    then have rd: "Read k d n = Done (once_Do k d, [], Some EOF)" and ex: "exhausted (once_Do k d)"
      by (simp_all add: Read_exhausted)
    obtain m e' w' where wr: "wr w [] = (m, e', w')" by (cases "wr w []") auto
    from a have "fst (snd (wr w [])) = None" by (simp add: accepting_def)
    with wr have "e' = None" by simp
    with 1(2) rd wr have "loop wr k n (once_Do k d) w' (acc + int m) = Some res"
      by simp
    from 1(1) [OF this] a ex show False by simp
  qed
qed

text \<open>
  C10 (\<^verbatim>\<open>WriteTo\<close> at the end of the stream). For a downloader read to its end (no reader
  left in \<^verbatim>\<open>d.r\<close>, no error recorded) and a sink whose \<^verbatim>\<open>Write\<close> never fails, the loop of
  \<^verbatim>\<open>WriteTo\<close> does not return, from whatever count and sink state it goes on, and neither
  does a call of \<^verbatim>\<open>WriteTo\<close>: every \<^verbatim>\<open>d.Read\<close> gives \<^verbatim>\<open>(0, io.EOF)\<close>, which the loop does not
  take for an end, and every \<^verbatim>\<open>Write\<close> of no bytes succeeds.
\<close>

theorem WriteTo_never_returns:
  assumes "downloader.err d = None" and "r_readers d = []"
    and "\<forall>w p. fst (snd (wr w p)) = None"
  shows "WriteTo_loop wr k len_buf d w n = None
       \<and> (0 \<le> minPartSize \<longrightarrow> WriteTo wr minPartSize k d w = None)"
proof -
  have loop: "WriteTo_loop wr k l d w m = None" for l m
  proof (cases "WriteTo_loop wr k l d w m")
    case None
    then show ?thesis .
  next
    case (Some res)
    from WriteTo_loop_exhausted [OF this] assms show ?thesis
      by (simp add: accepting_def exhausted_def)
  qed
  then show ?thesis by (simp add: WriteTo_def)
qed

theorem WriteTo_never_returns_witness:
  "WriteTo append_sink 10 2 abc_final [] = None
   \<and> WriteTo_loop append_sink 2 10 abc_final ''AAAAAAAAAABBBBBBBBBBCCCCC'' 25 = None
   \<and> downloader.err abc_final = None \<and> r_readers abc_final = []
   \<and> run abc_net 2 abc_events (new_downloader 2 abc_chunks) = Some abc_final"
  using WriteTo_never_returns [of abc_final append_sink 2 10 "[]" 0 10]
    WriteTo_never_returns [of abc_final append_sink 2 10 "''AAAAAAAAAABBBBBBBBBBCCCCC''" 25 10]
    abc_run
  by (simp add: abc_final_def append_sink_def)

end
